theory Spec2Isabelle
  imports Main
begin

section \<open>The service registry of lib/registry.js\<close>

text \<open>
  The registry drives every published service through probing, announcing, conflict
  resolution and teardown on one shared multicast transport. The code is event driven:
  every function below is one JavaScript function of the source, run to completion on an
  explicit state; a timer or a transport callback that the source schedules is kept in the
  state as a defunctionalised closure and runs when the environment delivers the matching
  event. Calls made to the transport, to the console, to service listeners and to user
  callbacks are appended to a trace.
\<close>

subsection \<open>Data model\<close>

type_synonym sid = nat
type_synonym pid = nat
type_synonym aid = nat
type_synonym tid = nat
type_synonym cid = nat

text \<open>
  A JavaScript number that is only ever \<open>undefined\<close>, \<open>NaN\<close> or a non-negative integer
  (\<open>_nameAttempt\<close>). Increments stay far below \<open>2^53\<close>, where a double stops counting.
\<close>

datatype jsnum = Undef | NaN | Num nat

fun js_incr :: "jsnum \<Rightarrow> jsnum" where
  "js_incr (Num n) = Num (Suc n)"
| "js_incr _ = NaN"

definition digit_char :: "nat \<Rightarrow> char" where
  "digit_char d = ''0123456789'' ! d"

function show_nat :: "nat \<Rightarrow> string" where
  "show_nat n = (if n < 10 then [digit_char n] else show_nat (n div 10) @ [digit_char (n mod 10)])"
  by pat_completeness auto
termination
  by (relation "measure id") auto

declare show_nat.simps [simp del]

fun js_str :: "jsnum \<Rightarrow> string" where
  "js_str Undef = ''undefined''"
| "js_str NaN = ''NaN''"
| "js_str (Num n) = show_nat n"

text \<open>String concatenation with a property that may still be \<open>undefined\<close>.\<close>

fun str_of :: "string option \<Rightarrow> string" where
  "str_of None = ''undefined''"
| "str_of (Some s) = s"

text \<open>\<open>!x\<close> on a property holding \<open>undefined\<close> or a string: the empty string is falsy as well.\<close>

fun falsy :: "string option \<Rightarrow> bool" where
  "falsy None = True"
| "falsy (Some s) = (s = [])"

text \<open>
  The fields of a Service that registry.js reads or writes. \<open>_activated\<close>, \<open>_destroyed\<close>,
  \<open>_originalName\<close> and \<open>_nameAttempt\<close> drop their underscore.
\<close>

record service =
  name :: string
  type :: string
  fqdn :: string
  published :: bool
  activated :: bool
  destroyed :: bool
  originalName :: "string option"
  nameAttempt :: jsnum

record rr =
  rr_name :: string
  rr_type :: string
  ttl :: nat

record packet =
  answers :: "rr list"
  additionals :: "rr list"

text \<open>The options object handed to \<open>publish\<close>; \<open>probe\<close> may be absent.\<close>

record opts =
  o_name :: string
  o_type :: string
  o_probe :: "bool option"

text \<open>
  Modelled from the spec: the constructor of \<open>./service\<close>, which is not part of the
  sources at hand. The spec gives the data model: \<open>fqdn\<close> is derived as
  \<open>name + "." + type\<close>, the lifecycle flags start false, and \<open>originalName\<close> and
  \<open>nameAttempt\<close> are set by the first start.
\<close>

definition Service :: "opts \<Rightarrow> service" where
  "Service o' = \<lparr> name = o_name o', type = o_type o', fqdn = o_name o' @ ''.'' @ o_type o',
     published = False, activated = False, destroyed = False,
     originalName = None, nameAttempt = Undef \<rparr>"

text \<open>
  What \<open>start\<close> receives as its \<open>opts\<close> parameter: an options object \<open>{probe: b}\<close>, or the
  Registry object itself, which has no \<open>probe\<close> property.
\<close>

datatype start_arg = Opts bool | RegistryRef

fun opts_probe :: "start_arg \<Rightarrow> bool" where
  "opts_probe (Opts b) = b"
| "opts_probe RegistryRef = False"

text \<open>The completion callback given to \<open>probe\<close>: the closure of \<open>start\<close> over \<open>service\<close> and \<open>opts\<close>.\<close>

datatype closure = StartCb sid start_arg

record probe_ctx =
  p_service :: sid
  p_cb :: closure
  sent :: bool
  retries :: nat
  timer :: "tid option"

record announce_ctx =
  a_service :: sid
  delay :: nat
  packet :: "rr list"

text \<open>Timer callbacks and transport completion callbacks.\<close>

datatype cont = Send pid | Done pid | Broadcast aid

datatype tcb = QueryCb pid | BroadcastCb aid | GoodbyeCb "sid list" "nat option"

datatype wait = Jitter | Ms nat

datatype js_error = ReferenceError string | TypeError string | UnhandledError string

text \<open>
  What an identifier in scope of \<open>start\<close> can be bound to: a Service object, the Registry
  object, the argument \<open>opts\<close>, or one of the declarations of the module.
\<close>

datatype binding = ServiceObj sid | RegistryObj | OptsArg start_arg | ModuleItem

text \<open>
  The listener of lines 47 to 49 is a closure: it carries the bindings of the scope it
  was created in, and reads the identifier \<open>service\<close> from them when it runs.
\<close>

datatype err_listener = ErrListener "(string \<times> binding) list"

text \<open>
  What the registry does to its surroundings, in the order in which it happens: calls of
  the transport (\<open>query\<close>, \<open>register\<close>, \<open>unregister\<close>, \<open>respond\<close>), notifications of a service
  (\<open>emit\<close>), the console line of the conflict branch (with the service it is about), timers
  that are set, the result with which \<open>done\<close> invokes the completion callback of a probe,
  calls of a caller's callback, and exceptions that leave a listener.
\<close>

datatype action =
    Query string string
  | Register "rr list"
  | Unregister "rr list"
  | Respond "rr list"
  | Emit sid string
  | ConsoleLog sid string
  | SetTimeout cont wait
  | ProbeResult pid bool
  | UserCallback nat "string option"
  | Uncaught js_error

record state =
  heap :: "sid \<Rightarrow> service"
  next_sid :: nat
  services :: "sid list"
  probes :: "pid \<Rightarrow> probe_ctx"
  next_pid :: nat
  announces :: "aid \<Rightarrow> announce_ctx"
  next_aid :: nat
  response_listeners :: "pid list"
  error_listeners :: "err_listener list"
  timers :: "(tid \<times> cont) list"
  next_tid :: nat
  inflight :: "(cid \<times> tcb) list"
  next_cid :: nat
  trace :: "action list"
  records :: "service \<Rightarrow> rr list"

definition REANNOUNCE_MAX_MS :: nat where
  "REANNOUNCE_MAX_MS = 60 * 60 * 1000"

definition REANNOUNCE_FACTOR :: nat where
  "REANNOUNCE_FACTOR = 3"

subsection \<open>Primitives of the runtime\<close>

definition upd :: "sid \<Rightarrow> (service \<Rightarrow> service) \<Rightarrow> state \<Rightarrow> state" where
  "upd s f st = st\<lparr> heap := (heap st)(s := f (heap st s)) \<rparr>"

definition emit :: "action \<Rightarrow> state \<Rightarrow> state" where
  "emit a st = st\<lparr> trace := trace st @ [a] \<rparr>"

text \<open>\<open>timers.setTimeout\<close>: returns the handle with the new state.\<close>

definition setTimeout :: "cont \<Rightarrow> wait \<Rightarrow> state \<Rightarrow> tid \<times> state" where
  "setTimeout k w st =
     (next_tid st,
      emit (SetTimeout k w) (st\<lparr> timers := timers st @ [(next_tid st, k)], next_tid := Suc (next_tid st) \<rparr>))"

text \<open>\<open>timers.clearTimeout\<close>: \<open>undefined\<close> and handles that already fired are ignored.\<close>

fun clearTimeout :: "tid option \<Rightarrow> state \<Rightarrow> state" where
  "clearTimeout None st = st"
| "clearTimeout (Some t) st = st\<lparr> timers := filter (\<lambda>e. fst e \<noteq> t) (timers st) \<rparr>"

text \<open>A call of the transport that completes later through its callback.\<close>

definition transport_call :: "action \<Rightarrow> tcb \<Rightarrow> state \<Rightarrow> state" where
  "transport_call a k st =
     emit a (st\<lparr> inflight := inflight st @ [(next_cid st, k)], next_cid := Suc (next_cid st) \<rparr>)"

text \<open>
  Modelled from the spec: the comparison of the package \<open>dns-equal\<close>, which the spec
  describes as case-insensitive name equality.
\<close>

definition lower :: "char \<Rightarrow> char" where
  "lower c = (if (65::nat) \<le> of_char c \<and> of_char c \<le> (90::nat) then char_of (of_char c + (32::nat)) else c)"

definition dnsEqual :: "string \<Rightarrow> string \<Rightarrow> bool" where
  "dnsEqual a b = (map lower a = map lower b)"

subsection \<open>Announcing\<close>

definition broadcast :: "aid \<Rightarrow> state \<Rightarrow> state" where
  "broadcast a st =
     (let s = a_service (announces st a) in
      if \<not> activated (heap st s) \<or> destroyed (heap st s) then st
      else transport_call (Respond (packet (announces st a))) (BroadcastCb a) st)"

text \<open>The callback of \<open>respond\<close> in \<open>broadcast\<close>; the error it may receive is ignored.\<close>

definition broadcast_cb :: "aid \<Rightarrow> string option \<Rightarrow> state \<Rightarrow> state" where
  "broadcast_cb a err st =
     (let s = a_service (announces st a);
          st1 = (if \<not> published (heap st s)
                 then emit (Emit s ''up'') (upd s (\<lambda>v. v\<lparr> activated := True, published := True \<rparr>) st)
                 else st);
          d = delay (announces st1 a) * REANNOUNCE_FACTOR;
          st2 = st1\<lparr> announces := (announces st1)(a := (announces st1 a)\<lparr> delay := d \<rparr>) \<rparr>
      in if d < REANNOUNCE_MAX_MS \<and> \<not> destroyed (heap st2 s)
         then snd (setTimeout (Broadcast a) (Ms d) st2)
         else st2)"

definition announce :: "sid \<Rightarrow> state \<Rightarrow> state" where
  "announce s st =
     (let a = next_aid st;
          pkt = records st (heap st s);
          st1 = st\<lparr> announces := (announces st)(a := \<lparr> a_service = s, delay = 1000, packet = pkt \<rparr>),
                    next_aid := Suc a \<rparr>;
          st2 = emit (Register pkt) st1
      in broadcast a st2)"

subsection \<open>Probing\<close>

definition probe :: "sid \<Rightarrow> closure \<Rightarrow> state \<Rightarrow> state" where
  "probe s cb st =
     (let p = next_pid st;
          st1 = st\<lparr> probes := (probes st)(p := \<lparr> p_service = s, p_cb = cb, sent = False,
                                                 retries = 0, timer = None \<rparr>),
                    next_pid := Suc p \<rparr>;
          st2 = st1\<lparr> response_listeners := response_listeners st1 @ [p] \<rparr>
      in snd (setTimeout (Send p) Jitter st2))"

definition send :: "pid \<Rightarrow> state \<Rightarrow> state" where
  "send p st =
     (let s = p_service (probes st p) in
      if \<not> activated (heap st s) \<or> destroyed (heap st s) then st
      else transport_call (Query (fqdn (heap st s)) ''ANY'') (QueryCb p) st)"

text \<open>The callback of \<open>query\<close> in \<open>send\<close>.\<close>

definition query_cb :: "pid \<Rightarrow> state \<Rightarrow> state" where
  "query_cb p st =
     (let r = Suc (retries (probes st p));
          st1 = st\<lparr> probes := (probes st)(p := (probes st p)\<lparr> sent := True, retries := r \<rparr>) \<rparr>;
          (t, st2) = setTimeout (if r < 3 then Send p else Done p) (Ms 250) st1
      in st2\<lparr> probes := (probes st2)(p := (probes st2 p)\<lparr> timer := Some t \<rparr>) \<rparr>)"

definition matchRR :: "service \<Rightarrow> rr \<Rightarrow> bool" where
  "matchRR v r = dnsEqual (rr_name r) (fqdn v)"

subsection \<open>Starting, conflict resolution and stopping\<close>

text \<open>
  The scopes of \<open>start\<close>, innermost binding first. The module declares its imports, two
  constants, \<open>Registry\<close> and the functions. The body of \<open>start\<close> adds its parameters
  \<open>registry\<close> and \<open>opts\<close>, and declares nothing else at its own level. Line 52 declares
  \<open>const service = this\<close> within the block of \<open>if (opts.probe)\<close>: that binding exists for
  the closures created in the block, and for no others.
\<close>

definition module_env :: "(string \<times> binding) list" where
  "module_env = map (\<lambda>n. (n, ModuleItem))
     [''timers'', ''dnsEqual'', ''flatten'', ''Service'', ''REANNOUNCE_MAX_MS'',
      ''REANNOUNCE_FACTOR'', ''Registry'', ''start'', ''stop'', ''probe'', ''announce'',
      ''teardown'']"

definition function_env :: "start_arg \<Rightarrow> (string \<times> binding) list" where
  "function_env opts = [(''registry'', RegistryObj), (''opts'', OptsArg opts)] @ module_env"

definition probe_block_env :: "sid \<Rightarrow> start_arg \<Rightarrow> (string \<times> binding) list" where
  "probe_block_env this opts = (''service'', ServiceObj this) # function_env opts"

definition start :: "sid \<Rightarrow> start_arg \<Rightarrow> state \<Rightarrow> state" where
  "start this opts st =
     (if activated (heap st this) then st
      else
        let st1 = upd this (\<lambda>v. v\<lparr> activated := True \<rparr>) st;
            st2 = (if falsy (originalName (heap st1 this))
                   then upd this (\<lambda>v. v\<lparr> originalName := Some (name v), nameAttempt := Num 1 \<rparr>) st1
                   else st1);
            st3 = st2\<lparr> services := services st2 @ [this] \<rparr>;
            st4 = st3\<lparr> error_listeners :=
                        error_listeners st3 @ [ErrListener (function_env opts)] \<rparr>
        in if opts_probe opts then probe this (StartCb this opts) st4
           else announce this st4)"

text \<open>
  \<open>service.start\<close> is \<open>start.bind(service, registry)\<close>: the bound registry fills the first
  parameter of \<open>start\<close>, the first argument of a call fills \<open>opts\<close>, and further arguments
  are dropped.
\<close>

definition service_start :: "sid \<Rightarrow> start_arg \<Rightarrow> start_arg list \<Rightarrow> state \<Rightarrow> state" where
  "service_start s arg1 rest st = start s arg1 st"

text \<open>The callback that \<open>start\<close> hands to \<open>probe\<close> (lines 53 to 80).\<close>

fun call_cb :: "closure \<Rightarrow> bool \<Rightarrow> state \<Rightarrow> state" where
  "call_cb (StartCb s opts) exists st =
     (if exists then
        let st1 = upd s (\<lambda>v. v\<lparr> activated := False \<rparr>) st;
            st2 = st1\<lparr> services := remove1 s (services st1) \<rparr>;
            st3 = upd s (\<lambda>v. v\<lparr> nameAttempt := js_incr (nameAttempt v) \<rparr>) st2;
            st4 = upd s (\<lambda>v. v\<lparr> name := str_of (originalName v) @ '' ('' @ js_str (nameAttempt v) @ '')'' \<rparr>) st3;
            st5 = upd s (\<lambda>v. v\<lparr> fqdn := name v @ ''.'' @ type v \<rparr>) st4;
            st6 = emit (ConsoleLog s (''Name conflict, retrying with \"'' @ name (heap st5 s) @ ''\"'')) st5
        in service_start s RegistryRef [opts] st6
      else announce s st)"

definition probe_done :: "pid \<Rightarrow> bool \<Rightarrow> state \<Rightarrow> state" where
  "probe_done p exists st =
     (let st1 = st\<lparr> response_listeners := remove1 p (response_listeners st) \<rparr>;
          st2 = clearTimeout (timer (probes st1 p)) st1;
          st3 = emit (ProbeResult p exists) st2
      in call_cb (p_cb (probes st3 p)) exists st3)"

definition onresponse :: "pid \<Rightarrow> packet \<Rightarrow> state \<Rightarrow> state" where
  "onresponse p pkt st =
     (if \<not> sent (probes st p) then st
      else if list_ex (matchRR (heap st (p_service (probes st p)))) (answers pkt)
            \<or> list_ex (matchRR (heap st (p_service (probes st p)))) (additionals pkt)
           then probe_done p True st
           else st)"

subsection \<open>Teardown\<close>

text \<open>The \<open>map\<close> of lines 198 to 205: it deactivates each service and collects its goodbye records.\<close>

fun goodbye_map :: "sid list \<Rightarrow> state \<Rightarrow> rr list list \<times> state" where
  "goodbye_map [] st = ([], st)"
| "goodbye_map (s # ss) st =
     (let st1 = upd s (\<lambda>v. v\<lparr> activated := False \<rparr>) st;
          recs = map (\<lambda>r. r\<lparr> ttl := 0 \<rparr>) (records st1 (heap st1 s));
          (rest, st2) = goodbye_map ss st1
      in (recs # rest, st2))"

datatype services_arg = One sid | Many "sid list"

fun as_array :: "services_arg \<Rightarrow> sid list" where
  "as_array (One s) = [s]"
| "as_array (Many ss) = ss"

definition user_cb :: "nat option \<Rightarrow> string option \<Rightarrow> state \<Rightarrow> state" where
  "user_cb cb res st = (case cb of None \<Rightarrow> st | Some c \<Rightarrow> emit (UserCallback c res) st)"

definition teardown :: "services_arg \<Rightarrow> nat option \<Rightarrow> state \<Rightarrow> state" where
  "teardown arg cb st =
     (let included = filter (\<lambda>s. activated (heap st s)) (as_array arg);
          (rs, st1) = goodbye_map included st;
          recs = concat rs
      in if length recs = 0 then user_cb cb None st1
         else transport_call (Respond recs) (GoodbyeCb included cb) (emit (Unregister recs) st1))"

text \<open>The callback of \<open>respond\<close> in \<open>teardown\<close>; the user callback receives its arguments.\<close>

definition goodbye_cb :: "sid list \<Rightarrow> nat option \<Rightarrow> string option \<Rightarrow> state \<Rightarrow> state" where
  "goodbye_cb included cb res st =
     user_cb cb res (fold (\<lambda>s. upd s (\<lambda>v. v\<lparr> published := False \<rparr>)) included st)"

definition stop :: "sid \<Rightarrow> nat option \<Rightarrow> state \<Rightarrow> state" where
  "stop this cb st =
     (if \<not> activated (heap st this) then st
      else let st1 = teardown (One this) cb st
           in st1\<lparr> services := remove1 this (services st1) \<rparr>)"

subsection \<open>The Registry\<close>

definition publish :: "opts \<Rightarrow> state \<Rightarrow> state" where
  "publish o' st =
     (let s = next_sid st;
          st1 = st\<lparr> heap := (heap st)(s := Service o'), next_sid := Suc s \<rparr>
      in service_start s (Opts (o_probe o' \<noteq> Some False)) [] st1)"

definition unpublishAll :: "nat option \<Rightarrow> state \<Rightarrow> state" where
  "unpublishAll cb st =
     (let st1 = teardown (Many (services st)) cb st
      in st1\<lparr> services := [] \<rparr>)"

definition destroy :: "state \<Rightarrow> state" where
  "destroy st = fold (\<lambda>s. upd s (\<lambda>v. v\<lparr> destroyed := True \<rparr>)) (services st) st"

subsection \<open>The event loop\<close>

text \<open>
  Listeners of the transport's error event run in the order of their registration; the
  first exception leaves the emitter. An emitter without a listener throws the error.
\<close>

fun error_listener :: "err_listener \<Rightarrow> string \<Rightarrow> state \<Rightarrow> js_error + state" where
  "error_listener (ErrListener env) err st =
     (case map_of env ''service'' of
        None \<Rightarrow> Inl (ReferenceError ''service'')
      | Some (ServiceObj s) \<Rightarrow> Inr (emit (Emit s ''error'') st)
      | Some _ \<Rightarrow> Inl (TypeError ''service.emit''))"

fun run_error_listeners :: "err_listener list \<Rightarrow> string \<Rightarrow> state \<Rightarrow> js_error + state" where
  "run_error_listeners [] err st = Inr st"
| "run_error_listeners (l # ls) err st =
     (case error_listener l err st of Inl e \<Rightarrow> Inl e | Inr st1 \<Rightarrow> run_error_listeners ls err st1)"

definition emit_error :: "string \<Rightarrow> state \<Rightarrow> js_error + state" where
  "emit_error err st =
     (if error_listeners st = [] then Inl (UnhandledError err)
      else run_error_listeners (error_listeners st) err st)"

definition run_timer :: "cont \<Rightarrow> state \<Rightarrow> state" where
  "run_timer k st = (case k of Send p \<Rightarrow> send p st | Done p \<Rightarrow> probe_done p False st
                     | Broadcast a \<Rightarrow> broadcast a st)"

definition run_tcb :: "tcb \<Rightarrow> string option \<Rightarrow> state \<Rightarrow> state" where
  "run_tcb k res st = (case k of QueryCb p \<Rightarrow> query_cb p st | BroadcastCb a \<Rightarrow> broadcast_cb a res st
                       | GoodbyeCb included cb \<Rightarrow> goodbye_cb included cb res st)"

datatype event =
    Publish opts
  | Start sid bool
  | Stop sid "nat option"
  | UnpublishAll "nat option"
  | Destroy
  | TimerFires tid
  | Completes cid "string option"
  | Response packet
  | TransportError string

fun step :: "event \<Rightarrow> state \<Rightarrow> state" where
  "step (Publish o') st = publish o' st"
| "step (Start s b) st = (if s < next_sid st then service_start s (Opts b) [] st else st)"
| "step (Stop s cb) st = (if s < next_sid st then stop s cb st else st)"
| "step (UnpublishAll cb) st = unpublishAll cb st"
| "step Destroy st = destroy st"
| "step (TimerFires t) st =
     (case map_of (timers st) t of None \<Rightarrow> st
      | Some k \<Rightarrow> run_timer k (st\<lparr> timers := filter (\<lambda>e. fst e \<noteq> t) (timers st) \<rparr>))"
| "step (Completes c res) st =
     (case map_of (inflight st) c of None \<Rightarrow> st
      | Some k \<Rightarrow> run_tcb k res (st\<lparr> inflight := filter (\<lambda>e. fst e \<noteq> c) (inflight st) \<rparr>))"
| "step (Response pkt) st = fold (\<lambda>p. onresponse p pkt) (response_listeners st) st"
| "step (TransportError err) st =
     (case emit_error err st of Inl e \<Rightarrow> emit (Uncaught e) st | Inr st1 \<Rightarrow> st1)"

definition run :: "event list \<Rightarrow> state \<Rightarrow> state" where
  "run evs st = fold step evs st"

text \<open>Heap cells that no \<open>publish\<close> has allocated yet.\<close>

definition blank :: service where
  "blank = Service \<lparr> o_name = [], o_type = [], o_probe = None \<rparr>"

definition init :: "(service \<Rightarrow> rr list) \<Rightarrow> state" where
  "init R = \<lparr> heap = (\<lambda>_. blank), next_sid = 0, services = [],
     probes = (\<lambda>_. \<lparr> p_service = 0, p_cb = StartCb 0 (Opts False), sent = False, retries = 0, timer = None \<rparr>),
     next_pid = 0,
     announces = (\<lambda>_. \<lparr> a_service = 0, delay = 0, packet = [] \<rparr>), next_aid = 0,
     response_listeners = [], error_listeners = [], timers = [], next_tid = 0,
     inflight = [], next_cid = 0, trace = [], records = R \<rparr>"

text \<open>A record builder for concrete runs: one record named after the service.\<close>

definition srv_record :: "service \<Rightarrow> rr list" where
  "srv_record v = [\<lparr> rr_name = fqdn v, rr_type = ''SRV'', ttl = 120 \<rparr>]"

subsection \<open>Observations on a trace and on a cycle\<close>

text \<open>The number of name conflicts reported for a service (the console line of the conflict branch).\<close>

fun is_conflict :: "sid \<Rightarrow> action \<Rightarrow> bool" where
  "is_conflict s (ConsoleLog s' m) = (s' = s)"
| "is_conflict s _ = False"

definition conflicts :: "sid \<Rightarrow> action list \<Rightarrow> nat" where
  "conflicts s tr = length (filter (is_conflict s) tr)"

text \<open>The number of \<open>up\<close> notifications of a service.\<close>

definition ups :: "sid \<Rightarrow> action list \<Rightarrow> nat" where
  "ups s tr = length (filter (\<lambda>x. x = Emit s ''up'') tr)"


text \<open>The results with which the completion callback of one probe was invoked, in order.\<close>

fun probe_results :: "pid \<Rightarrow> action list \<Rightarrow> bool list" where
  "probe_results p [] = []"
| "probe_results p (ProbeResult q b # tr) =
     (if q = p then b # probe_results p tr else probe_results p tr)"
| "probe_results p (x # tr) = probe_results p tr"

text \<open>What a handler appended to the trace.\<close>

definition since :: "state \<Rightarrow> state \<Rightarrow> action list" where
  "since st st' = drop (length (trace st)) (trace st')"




text \<open>
  The collisions that the probes of a service have reported: the calls of their completion
  callbacks with the result \<open>true\<close>.
\<close>

fun reports :: "state \<Rightarrow> sid \<Rightarrow> action \<Rightarrow> bool" where
  "reports st s (ProbeResult p b) = (b \<and> p_service (probes st p) = s)"
| "reports st s _ = False"

definition collisions :: "sid \<Rightarrow> state \<Rightarrow> nat" where
  "collisions s st = length (filter (reports st s) (trace st))"


text \<open>
  The callback that an event makes the transport call: that of the pending call it
  completes.
\<close>

definition completing :: "event \<Rightarrow> state \<Rightarrow> tcb option" where
  "completing e st = (case e of Completes c res \<Rightarrow> map_of (inflight st) c | _ \<Rightarrow> None)"

text \<open>The event completes a broadcast of an announce cycle of the service.\<close>

definition broadcast_of :: "sid \<Rightarrow> event \<Rightarrow> state \<Rightarrow> bool" where
  "broadcast_of s e st =
     (case completing e st of Some (BroadcastCb a) \<Rightarrow> a_service (announces st a) = s | _ \<Rightarrow> False)"

text \<open>The event completes the goodbye broadcast of a teardown that included the service.\<close>

definition goodbye_of :: "sid \<Rightarrow> event \<Rightarrow> state \<Rightarrow> bool" where
  "goodbye_of s e st =
     (case completing e st of Some (GoodbyeCb included cb) \<Rightarrow> s \<in> set included | _ \<Rightarrow> False)"

text \<open>Some event of the sequence, run from the state, completes a broadcast of the service.\<close>

fun broadcast_done :: "sid \<Rightarrow> event list \<Rightarrow> state \<Rightarrow> bool" where
  "broadcast_done s [] st = False"
| "broadcast_done s (e # evs) st = (broadcast_of s e st \<or> broadcast_done s evs (step e st))"

text \<open>Some event of the sequence, run from the state, completes a goodbye of the service.\<close>

fun withdrawn :: "sid \<Rightarrow> event list \<Rightarrow> state \<Rightarrow> bool" where
  "withdrawn s [] st = False"
| "withdrawn s (e # evs) st = (goodbye_of s e st \<or> withdrawn s evs (step e st))"



subsection \<open>Concrete inputs\<close>

definition printer :: opts where
  "printer = \<lparr> o_name = ''Printer'', o_type = ''http'', o_probe = None \<rparr>"

definition printer_np :: opts where
  "printer_np = \<lparr> o_name = ''Printer'', o_type = ''http'', o_probe = Some False \<rparr>"

definition scanner_np :: opts where
  "scanner_np = \<lparr> o_name = ''Scanner'', o_type = ''ipp'', o_probe = Some False \<rparr>"

definition claimed :: packet where
  "claimed = \<lparr> answers = [\<lparr> rr_name = ''Printer.http'', rr_type = ''SRV'', ttl = 120 \<rparr>],
     additionals = [] \<rparr>"



text \<open>Two services, both announced and up.\<close>

definition two_up :: state where
  "two_up = run [Publish printer_np, Publish scanner_np, Completes 0 None, Completes 1 None]
              (init srv_record)"

definition byes :: "rr list" where
  "byes = [\<lparr> rr_name = ''Printer.http'', rr_type = ''SRV'', ttl = 0 \<rparr>,
           \<lparr> rr_name = ''Scanner.ipp'', rr_type = ''SRV'', ttl = 0 \<rparr>]"

text \<open>
  A probe that meets a claim of its name after its first transmission: the jitter timer
  fires, the first query completes, the response arrives.
\<close>

definition scenario_b :: "event list" where
  "scenario_b = [Publish printer, TimerFires 0, Completes 0 None, Response claimed]"

text \<open>A probe whose three transmissions have completed; the last wait is pending.\<close>

definition probed_thrice :: "event list" where
  "probed_thrice = [Publish printer, TimerFires 0, Completes 0 None, TimerFires 1,
     Completes 1 None, TimerFires 2, Completes 2 None]"

text \<open>
  The response arrives while the third query is in flight; then the query completes and
  the wait it started runs out.
\<close>

definition race :: "event list" where
  "race = [Publish printer, TimerFires 0, Completes 0 None, TimerFires 1, Completes 1 None,
     TimerFires 2, Response claimed, Completes 2 None, TimerFires 3]"







text \<open>
  A service published without probing and stopped before its first broadcast completes;
  the first broadcast and the goodbye complete, the backoff timer fires, and the second
  broadcast completes.
\<close>

definition stopped_early :: "event list" where
  "stopped_early = [Publish printer_np, Stop 0 None, Completes 0 None, Completes 1 None,
     TimerFires 0, Completes 2 None]"

text \<open>
  Three broadcasts of one announce cycle complete, the first with an error, the backoff
  timer firing in between.
\<close>

definition three_rounds :: "event list" where
  "three_rounds = [Completes 0 (Some ''EHOSTUNREACH''), TimerFires 0, Completes 1 None,
     TimerFires 1, Completes 2 None]"

text \<open>A record builder that gives a service no records.\<close>

definition no_records :: "service \<Rightarrow> rr list" where
  "no_records v = []"

subsection \<open>Invariants of the reachable states\<close>

text \<open>
  Closures kept in the state refer to probes that exist, the callback of a probe restarts
  the service that the probe is for, and pending calls have handles that were given out.
  The console line of the conflict branch is printed once for each collision reported.
\<close>

fun cont_ok :: "nat \<Rightarrow> cont \<Rightarrow> bool" where
  "cont_ok n (Send p) = (p < n)"
| "cont_ok n (Done p) = (p < n)"
| "cont_ok n (Broadcast a) = True"

fun tcb_ok :: "nat \<Rightarrow> tcb \<Rightarrow> bool" where
  "tcb_ok n (QueryCb p) = (p < n)"
| "tcb_ok n (BroadcastCb a) = True"
| "tcb_ok n (GoodbyeCb ss cb) = True"

fun cb_service :: "closure \<Rightarrow> sid" where
  "cb_service (StartCb s opts) = s"

fun plain :: "action \<Rightarrow> bool" where
  "plain (ProbeResult p b) = False"
| "plain (ConsoleLog s m) = False"
| "plain _ = True"

definition refs_ok :: "state \<Rightarrow> bool" where
  "refs_ok st \<longleftrightarrow>
     (\<forall>p \<in> set (response_listeners st). p < next_pid st) \<and>
     (\<forall>e \<in> set (timers st). cont_ok (next_pid st) (snd e)) \<and>
     (\<forall>e \<in> set (inflight st). tcb_ok (next_pid st) (snd e) \<and> fst e < next_cid st) \<and>
     (\<forall>p. p < next_pid st \<longrightarrow> cb_service (p_cb (probes st p)) = p_service (probes st p)
                                 \<and> p_service (probes st p) < next_sid st) \<and>
     (\<forall>p b. ProbeResult p b \<in> set (trace st) \<longrightarrow> p < next_pid st) \<and>
     (\<forall>s. collisions s st = conflicts s (trace st))"

definition advances :: "state \<Rightarrow> state \<Rightarrow> bool" where
  "advances st st' \<longleftrightarrow> refs_ok st' \<and> next_sid st \<le> next_sid st' \<and> next_pid st \<le> next_pid st'
     \<and> next_cid st \<le> next_cid st'
     \<and> (\<forall>e \<in> set (inflight st'). e \<in> set (inflight st) \<or> next_cid st \<le> fst e)"





definition fqdn_ok :: "service \<Rightarrow> bool" where
  "fqdn_ok v \<longleftrightarrow> fqdn v = name v @ ''.'' @ type v"

text \<open>The active collection holds no service twice, and only activated services.\<close>

definition active_ok :: "state \<Rightarrow> bool" where
  "active_ok st \<longleftrightarrow> distinct (services st)
     \<and> (\<forall>s \<in> set (services st). activated (heap st s) \<and> s < next_sid st)"

text \<open>
  The state in which the handler of an event runs: the timer that fires and the call
  that completes have left their tables.
\<close>

definition dequeue :: "event \<Rightarrow> state \<Rightarrow> state" where
  "dequeue e st =
     (case e of TimerFires t \<Rightarrow> st\<lparr> timers := filter (\<lambda>x. fst x \<noteq> t) (timers st) \<rparr>
      | Completes c res \<Rightarrow> st\<lparr> inflight := filter (\<lambda>x. fst x \<noteq> c) (inflight st) \<rparr>
      | _ \<Rightarrow> st)"

text \<open>
  What every handler leaves alone. Pending calls are only added, under new handles; the
  \<open>sent\<close> flag of a probe is set by the callback of its own query only (the probes in
  \<open>P\<close>); \<open>published\<close> changes, and \<open>up\<close> is emitted, for the services in \<open>S\<close> only: those
  for which a broadcast or a goodbye completes.
\<close>

definition quiet :: "pid set \<Rightarrow> sid set \<Rightarrow> state \<Rightarrow> state \<Rightarrow> bool" where
  "quiet P S st st' \<longleftrightarrow>
     next_sid st \<le> next_sid st' \<and> next_cid st \<le> next_cid st' \<and>
     (\<exists>new. inflight st' = inflight st @ new \<and> (\<forall>x \<in> set new. next_cid st \<le> fst x)) \<and>
     (\<forall>p. p \<notin> P \<longrightarrow> sent (probes st' p) \<longrightarrow> sent (probes st p)) \<and>
     (\<forall>s. s \<notin> S \<longrightarrow> s < next_sid st \<longrightarrow> published (heap st' s) = published (heap st s)) \<and>
     (\<forall>s. fqdn_ok (heap st s) \<longrightarrow> fqdn_ok (heap st' s)) \<and>
     (\<exists>x. trace st' = trace st @ x \<and> (\<forall>s. s \<notin> S \<longrightarrow> Emit s ''up'' \<notin> set x))"


section \<open>Facts about the handlers\<close>

lemmas model_defs =
  run_def init_def publish_def unpublishAll_def destroy_def stop_def teardown_def goodbye_cb_def
  user_cb_def Service_def service_start_def start_def upd_def probe_def setTimeout_def emit_def
  send_def transport_call_def run_timer_def run_tcb_def onresponse_def
  probe_done_def query_cb_def matchRR_def dnsEqual_def lower_def announce_def broadcast_def
  broadcast_cb_def emit_error_def REANNOUNCE_FACTOR_def REANNOUNCE_MAX_MS_def Let_def
  printer_def printer_np_def scanner_np_def claimed_def srv_record_def blank_def
  show_nat.simps digit_char_def ups_def conflicts_def since_def


lemma ups_append: "ups s (xs @ ys) = ups s xs + ups s ys"
  by (simp add: ups_def)


lemma broadcast_cb_fields:
  "heap (broadcast_cb a err st) =
     (if \<not> published (heap st (a_service (announces st a)))
      then (heap st)(a_service (announces st a) :=
              (heap st (a_service (announces st a)))\<lparr> activated := True, published := True \<rparr>)
      else heap st)"
  "announces (broadcast_cb a err st) =
     (announces st)(a := (announces st a)\<lparr> delay := delay (announces st a) * 3 \<rparr>)"
  "trace (broadcast_cb a err st) =
     trace st
     @ (if \<not> published (heap st (a_service (announces st a)))
        then [Emit (a_service (announces st a)) ''up''] else [])
     @ (if delay (announces st a) * 3 < 3600000 \<and> \<not> destroyed (heap st (a_service (announces st a)))
        then [SetTimeout (Broadcast a) (Ms (delay (announces st a) * 3))] else [])"
  by (auto simp: broadcast_cb_def setTimeout_def emit_def upd_def Let_def
        REANNOUNCE_FACTOR_def REANNOUNCE_MAX_MS_def)


lemma upd_fields:
  "heap (upd s f st) = (heap st)(s := f (heap st s))"
  "records (upd s f st) = records st"
  "trace (upd s f st) = trace st"
  "services (upd s f st) = services st"
  "inflight (upd s f st) = inflight st"
  "next_cid (upd s f st) = next_cid st"
  by (simp_all add: upd_def)


section \<open>Stopping an inactive service\<close>

text \<open>
  C10: \<open>stop(callback)\<close> on a service whose activated flag is false returns at once: no
  teardown runs, the active collection is unchanged and the callback is never invoked,
  that is, the whole state with its trace stays as it was.
\<close>

theorem stop_inactive_noop:
  "\<not> activated (heap st s) \<Longrightarrow> stop s cb st = st"
  by (simp add: stop_def)

text \<open>A stopped service, stopped once more with a callback: nothing happens.\<close>

theorem stop_inactive_noop_witness:
  "\<not> activated (heap (run [Publish printer_np, Stop 0 None] (init srv_record)) 0)
   \<and> stop 0 (Some 7) (run [Publish printer_np, Stop 0 None] (init srv_record))
       = run [Publish printer_np, Stop 0 None] (init srv_record)"
proof -
  have h: "\<not> activated (heap (run [Publish printer_np, Stop 0 None] (init srv_record)) 0)"
    by (simp add: model_defs)
  show ?thesis
    using h stop_inactive_noop [OF h, of "Some 7"] by simp
qed

section \<open>The announce cycle\<close>









section \<open>References kept in the state\<close>

lemma advances_refl: "refs_ok st \<Longrightarrow> advances st st"
  by (simp add: advances_def)

lemma advances_trans: "advances st st1 \<Longrightarrow> advances st1 st2 \<Longrightarrow> advances st st2"
  by (fastforce simp: advances_def)

lemma advances_refs: "advances st st' \<Longrightarrow> refs_ok st'"
  by (simp add: advances_def)

lemma plain_reports: "plain a \<Longrightarrow> \<not> reports st s a"
  by (cases a) simp_all

lemma plain_conflict: "plain a \<Longrightarrow> \<not> is_conflict s a"
  by (cases a) simp_all

lemma plain_result: "plain a \<Longrightarrow> a \<noteq> ProbeResult p b"
  by (cases a) simp_all

lemma reports_cong:
  assumes "\<And>p b. a = ProbeResult p b \<Longrightarrow> p_service (probes st' p) = p_service (probes st p)"
  shows "reports st' s a = reports st s a"
  using assms by (cases a) simp_all

lemma reports_probes: "probes st' = probes st \<Longrightarrow> reports st' = reports st"
proof (intro ext)
  fix s a assume "probes st' = probes st"
  then show "reports st' s a = reports st s a" by (cases a) simp_all
qed

lemma refs_frame:
  assumes "refs_ok st"
      and "next_sid st \<le> next_sid st'"
      and "next_pid st \<le> next_pid st'"
      and "next_cid st \<le> next_cid st'"
      and "\<And>p. p \<in> set (response_listeners st') \<Longrightarrow> p \<in> set (response_listeners st) \<or> p < next_pid st'"
      and "\<And>e. e \<in> set (timers st') \<Longrightarrow> e \<in> set (timers st) \<or> cont_ok (next_pid st') (snd e)"
      and "\<And>e. e \<in> set (inflight st') \<Longrightarrow> e \<in> set (inflight st)
             \<or> (tcb_ok (next_pid st') (snd e) \<and> next_cid st \<le> fst e \<and> fst e < next_cid st')"
      and "\<And>p. p < next_pid st' \<Longrightarrow>
             (p < next_pid st \<and> p_cb (probes st' p) = p_cb (probes st p)
                \<and> p_service (probes st' p) = p_service (probes st p))
             \<or> (\<not> p < next_pid st \<and> cb_service (p_cb (probes st' p)) = p_service (probes st' p)
                \<and> p_service (probes st' p) < next_sid st')"
      and "\<exists>x. trace st' = trace st @ x \<and> (\<forall>a \<in> set x. plain a)"
  shows "advances st st'"
proof -
  from assms(9) obtain x where x: "trace st' = trace st @ x" "\<forall>a \<in> set x. plain a" by blast
  have mono_c: "\<And>k. cont_ok (next_pid st) k \<Longrightarrow> cont_ok (next_pid st') k"
    using assms(3) by (case_tac k) auto
  have mono_t: "\<And>k. tcb_ok (next_pid st) k \<Longrightarrow> tcb_ok (next_pid st') k"
    using assms(3) by (case_tac k) auto
  have old: "\<And>p. p < next_pid st \<Longrightarrow> p_service (probes st' p) = p_service (probes st p)"
    using assms(3,8) by (metis less_le_trans)
  have pr: "\<And>p b. ProbeResult p b \<in> set (trace st) \<Longrightarrow> p < next_pid st"
    using assms(1) unfolding refs_ok_def by blast
  have f1: "\<And>s. filter (reports st' s) (trace st) = filter (reports st s) (trace st)"
    by (rule filter_cong [OF refl], rule reports_cong) (use old pr in blast)
  have f2: "\<And>s. filter (reports st' s) x = []"
    using x(2) by (auto simp: filter_empty_conv plain_reports)
  have f3: "\<And>s. filter (is_conflict s) x = []"
    using x(2) by (auto simp: filter_empty_conv plain_conflict)
  have kc: "\<And>s. collisions s st' = conflicts s (trace st')"
    using assms(1) by (simp add: collisions_def conflicts_def x(1) f1 f2 f3 refs_ok_def)
  have "refs_ok st'"
    unfolding refs_ok_def
  proof (intro conjI allI impI ballI)
    fix p assume "p \<in> set (response_listeners st')"
    from assms(5) [OF this] show "p < next_pid st'" using assms(1,3) by (auto simp: refs_ok_def)
  next
    fix e assume "e \<in> set (timers st')"
    from assms(6) [OF this] show "cont_ok (next_pid st') (snd e)"
      using assms(1) mono_c by (auto simp: refs_ok_def)
  next
    fix e assume "e \<in> set (inflight st')"
    from assms(7) [OF this] show "tcb_ok (next_pid st') (snd e)"
      using assms(1) mono_t by (auto simp: refs_ok_def)
  next
    fix e assume "e \<in> set (inflight st')"
    from assms(7) [OF this] show "fst e < next_cid st'"
      using assms(1,4) by (fastforce simp: refs_ok_def)
  next
    fix p assume "p < next_pid st'"
    from assms(8) [OF this] show "cb_service (p_cb (probes st' p)) = p_service (probes st' p)"
      using assms(1) by (auto simp: refs_ok_def)
  next
    fix p assume "p < next_pid st'"
    from assms(8) [OF this] show "p_service (probes st' p) < next_sid st'"
      using assms(1,2) by (fastforce simp: refs_ok_def)
  next
    fix p b assume "ProbeResult p b \<in> set (trace st')"
    then have "ProbeResult p b \<in> set (trace st)" using x plain_result by (auto simp: x(1))
    then show "p < next_pid st'" using pr assms(3) by fastforce
  next
    fix s show "collisions s st' = conflicts s (trace st')" by (rule kc)
  qed
  moreover have "\<forall>e \<in> set (inflight st'). e \<in> set (inflight st) \<or> next_cid st \<le> fst e"
    using assms(7) by blast
  ultimately show ?thesis using assms(2,3,4) by (simp add: advances_def)
qed

lemma advances_broadcast: "refs_ok st \<Longrightarrow> advances st (broadcast a st)"
  by (erule refs_frame) (auto simp: broadcast_def transport_call_def emit_def Let_def)

lemma advances_broadcast_cb: "refs_ok st \<Longrightarrow> advances st (broadcast_cb a err st)"
  by (erule refs_frame) (auto simp: broadcast_cb_def setTimeout_def upd_def emit_def Let_def)

lemma advances_announce: "refs_ok st \<Longrightarrow> advances st (announce s st)"
  by (erule refs_frame) (auto simp: announce_def broadcast_def transport_call_def emit_def Let_def)

lemma advances_send: "refs_ok st \<Longrightarrow> p < next_pid st \<Longrightarrow> advances st (send p st)"
  by (erule refs_frame) (auto simp: send_def transport_call_def emit_def Let_def)

lemma advances_query_cb: "refs_ok st \<Longrightarrow> p < next_pid st \<Longrightarrow> advances st (query_cb p st)"
  by (erule refs_frame) (auto simp: query_cb_def setTimeout_def emit_def Let_def)

lemma advances_probe:
  "refs_ok st \<Longrightarrow> s < next_sid st \<Longrightarrow> advances st (probe s (StartCb s opts) st)"
  by (erule refs_frame) (auto simp: probe_def setTimeout_def emit_def Let_def less_Suc_eq)

lemma goodbye_map_snd:
  "snd (goodbye_map ss st) =
     st\<lparr> heap := (\<lambda>s. if s \<in> set ss then (heap st s)\<lparr> activated := False \<rparr> else heap st s) \<rparr>"
proof (induction ss arbitrary: st)
  case Nil
  show ?case by simp
next
  case (Cons s ss)
  have "(\<lambda>x. if x \<in> set ss then (((heap st)(s := (heap st s)\<lparr>activated := False\<rparr>)) x)\<lparr>activated := False\<rparr>
             else ((heap st)(s := (heap st s)\<lparr>activated := False\<rparr>)) x)
      = (\<lambda>x. if x = s \<or> x \<in> set ss then (heap st x)\<lparr>activated := False\<rparr> else heap st x)"
    by (rule ext) simp
  then show ?case
    by (simp add: Let_def split_beta Cons.IH upd_def cong del: if_weak_cong)
qed

lemma fold_upd_heap_only:
  "fold (\<lambda>s. upd s f) ss st = st\<lparr> heap := heap (fold (\<lambda>s. upd s f) ss st) \<rparr>"
proof (induction ss arbitrary: st)
  case Nil
  show ?case by simp
next
  case (Cons s ss)
  have "fold (\<lambda>s. upd s f) (s # ss) st = fold (\<lambda>s. upd s f) ss (upd s f st)" by simp
  also have "\<dots> = (upd s f st)\<lparr> heap := heap (fold (\<lambda>s. upd s f) ss (upd s f st)) \<rparr>"
    by (rule Cons.IH)
  also have "\<dots> = st\<lparr> heap := heap (fold (\<lambda>s. upd s f) (s # ss) st) \<rparr>"
    by (simp add: upd_def)
  finally show ?case .
qed

lemma clearTimeout_fields:
  "probes (clearTimeout t st) = probes st" "heap (clearTimeout t st) = heap st"
  "next_pid (clearTimeout t st) = next_pid st" "next_sid (clearTimeout t st) = next_sid st"
  "next_cid (clearTimeout t st) = next_cid st" "inflight (clearTimeout t st) = inflight st"
  "trace (clearTimeout t st) = trace st" "services (clearTimeout t st) = services st"
  "response_listeners (clearTimeout t st) = response_listeners st"
  "announces (clearTimeout t st) = announces st" "next_aid (clearTimeout t st) = next_aid st"
  by (cases t; simp)+

lemma advances_heap: "refs_ok st \<Longrightarrow> advances st (st\<lparr> heap := h \<rparr>)"
  by (erule refs_frame) auto

lemma advances_upd: "refs_ok st \<Longrightarrow> advances st (upd s f st)"
  unfolding upd_def by (rule advances_heap)

lemma advances_fold_upd: "refs_ok st \<Longrightarrow> advances st (fold (\<lambda>s. upd s f) ss st)"
  by (subst fold_upd_heap_only) (rule advances_heap)

lemma advances_goodbye_map: "refs_ok st \<Longrightarrow> advances st (snd (goodbye_map ss st))"
  unfolding goodbye_map_snd by (rule advances_heap)

lemma advances_user_cb: "refs_ok st \<Longrightarrow> advances st (user_cb cb res st)"
  by (erule refs_frame) (auto simp: user_cb_def emit_def split: option.splits)

lemma advances_goodbye_call:
  "refs_ok st \<Longrightarrow> advances st (transport_call (Respond recs) (GoodbyeCb inc cb) (emit (Unregister recs) st))"
  by (erule refs_frame) (auto simp: transport_call_def emit_def)

lemma teardown_cases:
  "teardown arg cb st =
     (if concat (fst (goodbye_map (filter (\<lambda>s. activated (heap st s)) (as_array arg)) st)) = []
      then user_cb cb None (snd (goodbye_map (filter (\<lambda>s. activated (heap st s)) (as_array arg)) st))
      else transport_call
             (Respond (concat (fst (goodbye_map (filter (\<lambda>s. activated (heap st s)) (as_array arg)) st))))
             (GoodbyeCb (filter (\<lambda>s. activated (heap st s)) (as_array arg)) cb)
             (emit (Unregister (concat (fst (goodbye_map (filter (\<lambda>s. activated (heap st s)) (as_array arg)) st))))
                (snd (goodbye_map (filter (\<lambda>s. activated (heap st s)) (as_array arg)) st))))"
  by (simp add: teardown_def Let_def split_beta del: concat_eq_Nil_conv)

lemma advances_teardown: "refs_ok st \<Longrightarrow> advances st (teardown arg cb st)"
proof -
  assume i: "refs_ok st"
  let ?st1 = "snd (goodbye_map (filter (\<lambda>s. activated (heap st s)) (as_array arg)) st)"
  have g1: "advances st ?st1" using i by (rule advances_goodbye_map)
  have "advances ?st1 (teardown arg cb st)"
    unfolding teardown_cases
    using advances_user_cb [OF advances_refs [OF g1]] advances_goodbye_call [OF advances_refs [OF g1]]
    by (simp del: concat_eq_Nil_conv)
  with g1 show ?thesis by (rule advances_trans)
qed

lemma advances_destroy: "refs_ok st \<Longrightarrow> advances st (destroy st)"
  unfolding destroy_def by (rule advances_fold_upd)

lemma advances_goodbye_cb: "refs_ok st \<Longrightarrow> advances st (goodbye_cb inc cb res st)"
  unfolding goodbye_cb_def
  by (rule advances_trans [OF advances_fold_upd advances_user_cb [OF advances_refs [OF advances_fold_upd]]])

lemma advances_services: "refs_ok st \<Longrightarrow> advances st (st\<lparr> services := x \<rparr>)"
  by (erule refs_frame) auto

lemma advances_error_listeners: "refs_ok st \<Longrightarrow> advances st (st\<lparr> error_listeners := x \<rparr>)"
  by (erule refs_frame) auto

lemma advances_stop: "refs_ok st \<Longrightarrow> advances st (stop s cb st)"
  unfolding stop_def Let_def
  by (auto intro: advances_refl
        advances_trans [OF advances_teardown advances_services [OF advances_refs [OF advances_teardown]]])

lemma advances_unpublishAll: "refs_ok st \<Longrightarrow> advances st (unpublishAll cb st)"
  unfolding unpublishAll_def Let_def
  by (auto intro: advances_trans [OF advances_teardown advances_services [OF advances_refs [OF advances_teardown]]])

lemma advances_start:
  assumes "refs_ok st" "s < next_sid st"
  shows "advances st (start s opts st)"
proof (cases "activated (heap st s)")
  case True
  with assms show ?thesis by (simp add: start_def advances_refl)
next
  case False
  define st1 where "st1 = upd s (\<lambda>v. v\<lparr> activated := True \<rparr>) st"
  define st2 where "st2 = (if falsy (originalName (heap st1 s))
              then upd s (\<lambda>v. v\<lparr> originalName := Some (name v), nameAttempt := Num 1 \<rparr>) st1 else st1)"
  define st3 where "st3 = st2\<lparr> services := services st2 @ [s] \<rparr>"
  define st4 where "st4 = st3\<lparr> error_listeners := error_listeners st3 @ [ErrListener (function_env opts)] \<rparr>"
  have e: "start s opts st = (if opts_probe opts then probe s (StartCb s opts) st4 else announce s st4)"
    using False by (simp add: start_def Let_def st1_def st2_def st3_def st4_def)
  have g1: "advances st st1" unfolding st1_def using assms(1) by (rule advances_upd)
  have g2: "advances st1 st2" unfolding st2_def
    using advances_refs [OF g1] by (simp add: advances_upd advances_refl)
  have g3: "advances st2 st3" unfolding st3_def using advances_refs [OF g2] by (rule advances_services)
  have g4: "advances st3 st4" unfolding st4_def using advances_refs [OF g3] by (rule advances_error_listeners)
  have g04: "advances st st4" using g1 g2 g3 g4 by (blast intro: advances_trans)
  have s4: "s < next_sid st4" using assms(2) g04 by (simp add: advances_def)
  have "advances st4 (start s opts st)"
    unfolding e using advances_probe [OF advances_refs [OF g04] s4] advances_announce [OF advances_refs [OF g04]]
    by simp
  with g04 show ?thesis by (rule advances_trans)
qed

lemma refs_same:
  assumes "refs_ok st"
      and "probes st' = probes st" "next_pid st' = next_pid st" "next_sid st' = next_sid st"
          "next_cid st' = next_cid st" "response_listeners st' = response_listeners st"
          "timers st' = timers st" "inflight st' = inflight st"
      and "trace st' = trace st @ x"
      and "\<And>p b. ProbeResult p b \<in> set x \<Longrightarrow> p < next_pid st"
      and "\<And>s. length (filter (reports st s) x) = conflicts s x"
  shows "advances st st'"
proof -
  have kc: "\<And>s. collisions s st' = conflicts s (trace st')"
    using assms(1,11)
    by (simp add: collisions_def reports_probes [OF assms(2)] assms(9) refs_ok_def)
       (simp add: conflicts_def)
  have pr: "\<And>p b. ProbeResult p b \<in> set (trace st') \<Longrightarrow> p < next_pid st'"
    using assms(1,10) unfolding assms(9) assms(3) refs_ok_def by auto
  have "refs_ok st'"
    unfolding refs_ok_def
  proof (intro conjI allI impI ballI)
    show "\<And>s. collisions s st' = conflicts s (trace st')" by (rule kc)
    show "\<And>p b. ProbeResult p b \<in> set (trace st') \<Longrightarrow> p < next_pid st'" by (rule pr)
  qed (use assms(1) in \<open>simp_all add: refs_ok_def assms(2-8)\<close>)
  then show ?thesis by (simp add: advances_def assms(3-8))
qed

lemma advances_probe_done:
  assumes "refs_ok st" "p < next_pid st"
  shows "advances st (probe_done p b st)"
proof -
  define s where "s = p_service (probes st p)"
  define st1 where "st1 = st\<lparr> response_listeners := remove1 p (response_listeners st) \<rparr>"
  define st2 where "st2 = clearTimeout (timer (probes st1 p)) st1"
  have cb: "cb_service (p_cb (probes st p)) = s" and sv: "s < next_sid st"
    using assms by (simp_all add: refs_ok_def s_def)
  then obtain opts where k: "p_cb (probes st p) = StartCb s opts"
    by (cases "p_cb (probes st p)") simp
  have g2: "advances st st2"
    unfolding st2_def st1_def
    by (cases "timer (probes st p)"; rule refs_frame [OF assms(1)])
       (auto dest: set_remove1_subset [THEN subsetD])
  have r2: "refs_ok st2" using g2 by (rule advances_refs)
  have f2: "probes st2 = probes st" "next_pid st2 = next_pid st" "next_sid st2 = next_sid st"
    "heap st2 = heap st"
    by (simp_all add: st2_def st1_def clearTimeout_fields)
  show ?thesis
  proof (cases b)
    case False
    define st3 where "st3 = emit (ProbeResult p False) st2"
    have "p_cb (probes st3 p) = StartCb s opts" using k by (simp add: st3_def emit_def f2)
    then have e: "probe_done p b st = announce s st3"
      using False by (simp add: probe_done_def Let_def st3_def st2_def st1_def)
    have g3: "advances st2 st3"
    proof (rule refs_same [OF r2, where x = "[ProbeResult p False]"])
      show "\<And>q b. ProbeResult q b \<in> set [ProbeResult p False] \<Longrightarrow> q < next_pid st2"
        using assms(2) by (simp add: f2)
      show "\<And>x. length (filter (reports st2 x) [ProbeResult p False]) = conflicts x [ProbeResult p False]"
        by (simp add: conflicts_def)
    qed (simp_all add: st3_def emit_def)
    have "advances st3 (probe_done p b st)" unfolding e using advances_refs [OF g3] by (rule advances_announce)
    with g2 g3 show ?thesis by (blast intro: advances_trans)
  next
    case True
    define st6 where "st6 =
      (let t3 = emit (ProbeResult p True) st2;
           t4 = upd s (\<lambda>v. v\<lparr> activated := False \<rparr>) t3;
           t5 = t4\<lparr> services := remove1 s (services t4) \<rparr>;
           t6 = upd s (\<lambda>v. v\<lparr> nameAttempt := js_incr (nameAttempt v) \<rparr>) t5;
           t7 = upd s (\<lambda>v. v\<lparr> name := str_of (originalName v) @ '' ('' @ js_str (nameAttempt v) @ '')'' \<rparr>) t6;
           t8 = upd s (\<lambda>v. v\<lparr> fqdn := name v @ ''.'' @ type v \<rparr>) t7
       in emit (ConsoleLog s (''Name conflict, retrying with \"'' @ name (heap t8 s) @ ''\"'')) t8)"
    have "p_cb (probes (emit (ProbeResult p True) st2) p) = StartCb s opts"
      using k by (simp add: emit_def f2)
    then have e: "probe_done p b st = start s RegistryRef st6"
      using True
      by (simp add: probe_done_def Let_def st6_def st2_def st1_def service_start_def)
    obtain m where t: "trace st6 = trace st2 @ [ProbeResult p True, ConsoleLog s m]"
      by (simp add: st6_def Let_def emit_def upd_def)
    have f6: "probes st6 = probes st2" "next_pid st6 = next_pid st2" "next_sid st6 = next_sid st2"
      "next_cid st6 = next_cid st2" "inflight st6 = inflight st2" "timers st6 = timers st2"
      "response_listeners st6 = response_listeners st2"
      by (simp_all add: st6_def Let_def emit_def upd_def)
    have g6: "advances st2 st6"
    proof (rule refs_same [OF r2 f6(1,2,3,4,7,6,5) t])
      show "\<And>q b. ProbeResult q b \<in> set [ProbeResult p True, ConsoleLog s m] \<Longrightarrow> q < next_pid st2"
        using assms(2) by (simp add: f2)
      show "\<And>x. length (filter (reports st2 x) [ProbeResult p True, ConsoleLog s m])
                 = conflicts x [ProbeResult p True, ConsoleLog s m]"
        by (simp add: conflicts_def f2 s_def)
    qed
    have "s < next_sid st6" using sv by (simp add: f6 f2)
    from advances_start [OF advances_refs [OF g6] this]
    have "advances st6 (probe_done p b st)" unfolding e .
    with g2 g6 show ?thesis by (blast intro: advances_trans)
  qed
qed

lemma advances_onresponse:
  "refs_ok st \<Longrightarrow> p < next_pid st \<Longrightarrow> advances st (onresponse p pkt st)"
  by (simp add: onresponse_def advances_probe_done advances_refl)

lemma advances_fold_onresponse:
  "refs_ok st \<Longrightarrow> \<forall>p \<in> set ps. p < next_pid st \<Longrightarrow> advances st (fold (\<lambda>p. onresponse p pkt) ps st)"
proof (induction ps arbitrary: st)
  case Nil
  then show ?case by (simp add: advances_refl)
next
  case (Cons p ps)
  have g1: "advances st (onresponse p pkt st)" using Cons.prems by (simp add: advances_onresponse)
  then have "\<forall>q \<in> set ps. q < next_pid (onresponse p pkt st)"
    using Cons.prems(2) by (auto simp: advances_def)
  from Cons.IH [OF advances_refs [OF g1] this]
  have "advances (onresponse p pkt st) (fold (\<lambda>p. onresponse p pkt) (p # ps) st)" by simp
  with g1 show ?case by (rule advances_trans)
qed

lemma advances_alloc:
  "refs_ok st \<Longrightarrow> advances st (st\<lparr> heap := h, next_sid := Suc (next_sid st) \<rparr>)"
  by (erule refs_frame) (auto simp: less_Suc_eq)

lemma advances_publish: "refs_ok st \<Longrightarrow> advances st (publish o' st)"
proof -
  assume i: "refs_ok st"
  define st1 where "st1 = st\<lparr> heap := (heap st)(next_sid st := Service o'), next_sid := Suc (next_sid st) \<rparr>"
  have e: "publish o' st = start (next_sid st) (Opts (o_probe o' \<noteq> Some False)) st1"
    by (simp add: publish_def Let_def service_start_def st1_def)
  have g1: "advances st st1" unfolding st1_def using i by (rule advances_alloc)
  have "next_sid st < next_sid st1" by (simp add: st1_def)
  from advances_start [OF advances_refs [OF g1] this] g1 show ?thesis
    unfolding e by (blast intro: advances_trans)
qed

lemma advances_timers_filter: "refs_ok st \<Longrightarrow> advances st (st\<lparr> timers := filter P (timers st) \<rparr>)"
  by (erule refs_frame) auto

lemma advances_inflight_filter: "refs_ok st \<Longrightarrow> advances st (st\<lparr> inflight := filter P (inflight st) \<rparr>)"
  by (erule refs_frame) auto

lemma advances_run_timer: "refs_ok st \<Longrightarrow> cont_ok (next_pid st) k \<Longrightarrow> advances st (run_timer k st)"
  by (cases k) (simp_all add: run_timer_def advances_send advances_probe_done advances_broadcast)

lemma advances_run_tcb: "refs_ok st \<Longrightarrow> tcb_ok (next_pid st) k \<Longrightarrow> advances st (run_tcb k res st)"
  by (cases k) (simp_all add: run_tcb_def advances_query_cb advances_broadcast_cb advances_goodbye_cb)

lemma advances_emit_plain: "refs_ok st \<Longrightarrow> plain a \<Longrightarrow> advances st (emit a st)"
  by (erule refs_frame) (auto simp: emit_def)

lemma error_listener_Inr:
  "error_listener l err st = Inr st1 \<Longrightarrow> \<exists>s. st1 = emit (Emit s ''error'') st"
  by (cases l) (auto split: option.splits binding.splits)

lemma advances_error_listeners_run:
  "refs_ok st \<Longrightarrow> run_error_listeners ls err st = Inr st' \<Longrightarrow> advances st st'"
proof (induction ls arbitrary: st)
  case Nil
  then show ?case by (simp add: advances_refl)
next
  case (Cons l ls)
  from Cons.prems(2) obtain st1 where 1: "error_listener l err st = Inr st1"
    and 2: "run_error_listeners ls err st1 = Inr st'"
    by (auto split: sum.splits)
  from error_listener_Inr [OF 1] obtain s where "st1 = emit (Emit s ''error'') st" ..
  then have g1: "advances st st1" using Cons.prems(1) by (simp add: advances_emit_plain)
  from Cons.IH [OF advances_refs [OF g1] 2] g1 show ?case by (blast intro: advances_trans)
qed

lemma advances_step:
  assumes "refs_ok st"
  shows "advances st (step e st)"
proof (cases e)
  case (Publish o')
  with assms show ?thesis by (simp add: advances_publish)
next
  case (Start s b)
  with assms show ?thesis by (simp add: service_start_def advances_start advances_refl)
next
  case (Stop s cb)
  with assms show ?thesis by (simp add: advances_stop advances_refl)
next
  case (UnpublishAll cb)
  with assms show ?thesis by (simp add: advances_unpublishAll)
next
  case Destroy
  with assms show ?thesis by (simp add: advances_destroy)
next
  case (TimerFires t)
  show ?thesis
  proof (cases "map_of (timers st) t")
    case None
    with TimerFires assms show ?thesis by (simp add: advances_refl)
  next
    case (Some k)
    then have "(t, k) \<in> set (timers st)" by (rule map_of_SomeD)
    then have ok: "cont_ok (next_pid st) k" using assms by (auto simp: refs_ok_def)
    let ?st1 = "st\<lparr> timers := filter (\<lambda>e. fst e \<noteq> t) (timers st) \<rparr>"
    have g1: "advances st ?st1" using assms by (rule advances_timers_filter)
    have "cont_ok (next_pid ?st1) k" using ok by simp
    from advances_run_timer [OF advances_refs [OF g1] this] g1
    have "advances st (run_timer k ?st1)" by (blast intro: advances_trans)
    with TimerFires Some show ?thesis by simp
  qed
next
  case (Completes c res)
  show ?thesis
  proof (cases "map_of (inflight st) c")
    case None
    with Completes assms show ?thesis by (simp add: advances_refl)
  next
    case (Some k)
    then have "(c, k) \<in> set (inflight st)" by (rule map_of_SomeD)
    then have ok: "tcb_ok (next_pid st) k" using assms by (auto simp: refs_ok_def)
    let ?st1 = "st\<lparr> inflight := filter (\<lambda>e. fst e \<noteq> c) (inflight st) \<rparr>"
    have g1: "advances st ?st1" using assms by (rule advances_inflight_filter)
    have "tcb_ok (next_pid ?st1) k" using ok by simp
    from advances_run_tcb [OF advances_refs [OF g1] this] g1
    have "advances st (run_tcb k res ?st1)" by (blast intro: advances_trans)
    with Completes Some show ?thesis by simp
  qed
next
  case (Response pkt)
  have "\<forall>p \<in> set (response_listeners st). p < next_pid st" using assms by (simp add: refs_ok_def)
  from advances_fold_onresponse [OF assms this] Response show ?thesis by simp
next
  case (TransportError err)
  show ?thesis
  proof (cases "emit_error err st")
    case (Inl x)
    with TransportError assms show ?thesis by (simp add: advances_emit_plain)
  next
    case (Inr st1)
    then have "run_error_listeners (error_listeners st) err st = Inr st1"
      by (auto simp: emit_error_def split: if_splits)
    from advances_error_listeners_run [OF assms this] TransportError Inr show ?thesis by simp
  qed
qed

lemma refs_init: "refs_ok (init R)"
  by (simp add: refs_ok_def init_def collisions_def conflicts_def)

lemma refs_run: "refs_ok st \<Longrightarrow> refs_ok (run evs st)"
  unfolding run_def
proof (induction evs arbitrary: st)
  case Nil
  then show ?case by simp
next
  case (Cons e evs)
  have "refs_ok (step e st)" using advances_step [OF Cons.prems] by (rule advances_refs)
  then show ?case by (simp add: Cons.IH)
qed

section \<open>What the handlers leave alone\<close>

lemma quiet_refl: "quiet P S st st"
  by (simp add: quiet_def)

lemma quiet_trans:
  assumes "quiet P S st st1" "quiet P S st1 st2"
  shows "quiet P S st st2"
proof -
  from assms(1) obtain new x where 1: "inflight st1 = inflight st @ new" "\<forall>e \<in> set new. next_cid st \<le> fst e"
    "trace st1 = trace st @ x" "\<forall>s. s \<notin> S \<longrightarrow> Emit s ''up'' \<notin> set x"
    unfolding quiet_def by blast
  from assms(2) obtain new' x' where 2: "inflight st2 = inflight st1 @ new'" "\<forall>e \<in> set new'. next_cid st1 \<le> fst e"
    "trace st2 = trace st1 @ x'" "\<forall>s. s \<notin> S \<longrightarrow> Emit s ''up'' \<notin> set x'"
    unfolding quiet_def by blast
  have c: "next_cid st \<le> next_cid st1" "next_sid st \<le> next_sid st1" using assms(1) by (simp_all add: quiet_def)
  have a: "inflight st2 = inflight st @ (new @ new')" using 1(1) 2(1) by simp
  have b: "\<forall>e \<in> set (new @ new'). next_cid st \<le> fst e" using 1(2) 2(2) c by fastforce
  have t: "trace st2 = trace st @ (x @ x')" using 1(3) 2(3) by simp
  have u: "\<forall>s. s \<notin> S \<longrightarrow> Emit s ''up'' \<notin> set (x @ x')" using 1(4) 2(4) by simp
  have i: "\<exists>new. inflight st2 = inflight st @ new \<and> (\<forall>e \<in> set new. next_cid st \<le> fst e)"
    using a b by blast
  have tr: "\<exists>x. trace st2 = trace st @ x \<and> (\<forall>s. s \<notin> S \<longrightarrow> Emit s ''up'' \<notin> set x)"
    using t u by blast
  have rest: "next_sid st \<le> next_sid st2" "next_cid st \<le> next_cid st2"
    "\<forall>p. p \<notin> P \<longrightarrow> sent (probes st2 p) \<longrightarrow> sent (probes st p)"
    "\<forall>s. s \<notin> S \<longrightarrow> s < next_sid st \<longrightarrow> published (heap st2 s) = published (heap st s)"
    "\<forall>s. fqdn_ok (heap st s) \<longrightarrow> fqdn_ok (heap st2 s)"
    using assms c unfolding quiet_def by (auto simp: less_le_trans)
  show ?thesis unfolding quiet_def using i tr rest by blast
qed

lemma quiet_frame:
  assumes "next_sid st \<le> next_sid st'" "next_cid st \<le> next_cid st'"
      and "inflight st' = inflight st \<or> (\<exists>k. inflight st' = inflight st @ [(next_cid st, k)])"
      and "\<And>p. sent (probes st' p) \<longrightarrow> sent (probes st p)"
      and "\<And>s. s < next_sid st \<longrightarrow> published (heap st' s) = published (heap st s)"
      and "\<And>s. fqdn_ok (heap st s) \<longrightarrow> fqdn_ok (heap st' s)"
      and "\<exists>x. trace st' = trace st @ x \<and> (\<forall>s. Emit s ''up'' \<notin> set x)"
  shows "quiet P S st st'"
proof -
  have "\<exists>new. inflight st' = inflight st @ new \<and> (\<forall>x \<in> set new. next_cid st \<le> fst x)"
    using assms(3) by (elim disjE exE) (rule exI [of _ "[]"], simp, rule exI [of _ "[(next_cid st, k)]" for k], simp)
  moreover have "\<exists>x. trace st' = trace st @ x \<and> (\<forall>s. s \<notin> S \<longrightarrow> Emit s ''up'' \<notin> set x)"
    using assms(7) by blast
  ultimately show ?thesis using assms(1,2,4,5,6) unfolding quiet_def by blast
qed

lemma quiet_broadcast: "quiet P S st (broadcast a st)"
  by (rule quiet_frame) (auto simp: broadcast_def transport_call_def emit_def Let_def)

lemma quiet_announce: "quiet P S st (announce s st)"
  by (rule quiet_frame) (auto simp: announce_def broadcast_def transport_call_def emit_def Let_def)

lemma quiet_send: "quiet P S st (send p st)"
  by (rule quiet_frame) (auto simp: send_def transport_call_def emit_def Let_def)

lemma quiet_probe: "quiet P S st (probe s cb st)"
  by (rule quiet_frame) (auto simp: probe_def setTimeout_def emit_def Let_def)

lemma quiet_query_cb: "p \<in> P \<Longrightarrow> quiet P S st (query_cb p st)"
  unfolding quiet_def
  by (auto simp: query_cb_def setTimeout_def emit_def Let_def)

lemma quiet_broadcast_cb: "a_service (announces st a) \<in> S \<Longrightarrow> quiet P S st (broadcast_cb a err st)"
  unfolding quiet_def
  by (auto simp: broadcast_cb_def setTimeout_def upd_def emit_def Let_def fqdn_ok_def)

lemma quiet_heap:
  "(\<And>s. s < next_sid st \<longrightarrow> published (h s) = published (heap st s)) \<Longrightarrow>
   (\<And>s. fqdn_ok (heap st s) \<longrightarrow> fqdn_ok (h s)) \<Longrightarrow> quiet P S st (st\<lparr> heap := h \<rparr>)"
  by (rule quiet_frame) auto

lemma quiet_upd:
  "(\<And>v. published (f v) = published v) \<Longrightarrow> (\<And>v. fqdn_ok v \<longrightarrow> fqdn_ok (f v))
     \<Longrightarrow> quiet P S st (upd s f st)"
  unfolding upd_def by (rule quiet_heap) auto

lemma fold_upd_flags:
  assumes "\<And>v. published (f v) = published v" "\<And>v. fqdn_ok v \<longrightarrow> fqdn_ok (f v)"
  shows "published (heap (fold (\<lambda>s. upd s f) ss st) x) = published (heap st x)
       \<and> (fqdn_ok (heap st x) \<longrightarrow> fqdn_ok (heap (fold (\<lambda>s. upd s f) ss st) x))"
proof (induction ss arbitrary: st)
  case Nil
  show ?case by simp
next
  case (Cons s ss)
  have "published (heap (upd s f st) x) = published (heap st x)"
    "fqdn_ok (heap st x) \<longrightarrow> fqdn_ok (heap (upd s f st) x)"
    using assms by (auto simp: upd_def)
  with Cons.IH [of "upd s f st"] show ?case by simp
qed

lemma quiet_fold_upd:
  assumes "\<And>v. published (f v) = published v" "\<And>v. fqdn_ok v \<longrightarrow> fqdn_ok (f v)"
  shows "quiet P S st (fold (\<lambda>s. upd s f) ss st)"
  by (subst fold_upd_heap_only) (rule quiet_heap; simp add: fold_upd_flags [OF assms])

lemma quiet_goodbye_map: "quiet P S st (snd (goodbye_map ss st))"
  unfolding goodbye_map_snd by (rule quiet_heap) (auto simp: fqdn_ok_def)

lemma quiet_user_cb: "quiet P S st (user_cb cb res st)"
  by (rule quiet_frame) (auto simp: user_cb_def emit_def split: option.splits)

lemma quiet_goodbye_call:
  "quiet P S st (transport_call (Respond recs) (GoodbyeCb inc cb) (emit (Unregister recs) st))"
  by (rule quiet_frame) (auto simp: transport_call_def emit_def)

lemma quiet_teardown: "quiet P S st (teardown arg cb st)"
  unfolding teardown_cases
  by (auto simp del: concat_eq_Nil_conv
        intro: quiet_trans [OF quiet_goodbye_map quiet_user_cb]
               quiet_trans [OF quiet_goodbye_map quiet_goodbye_call])

lemma quiet_destroy: "quiet P S st (destroy st)"
  unfolding destroy_def by (rule quiet_fold_upd) (simp_all add: fqdn_ok_def)

lemma fold_unpublish_heap:
  "heap (fold (\<lambda>s. upd s (\<lambda>v. v\<lparr> published := False \<rparr>)) ss st) s =
     (if s \<in> set ss then (heap st s)\<lparr> published := False \<rparr> else heap st s)"
  by (induction ss arbitrary: st) (auto simp: upd_def)

lemma quiet_goodbye_cb:
  assumes "set inc \<subseteq> S"
  shows "quiet P S st (goodbye_cb inc cb res st)"
proof -
  let ?st1 = "fold (\<lambda>s. upd s (\<lambda>v. v\<lparr> published := False \<rparr>)) inc st"
  have "?st1 = st\<lparr> heap := heap ?st1 \<rparr>" by (rule fold_upd_heap_only)
  then have f: "next_sid ?st1 = next_sid st" "next_cid ?st1 = next_cid st" "inflight ?st1 = inflight st"
    "probes ?st1 = probes st" "trace ?st1 = trace st"
    by (metis state.select_convs state.surjective state.update_convs)+
  have "quiet P S st ?st1"
    unfolding quiet_def f using assms
    by (auto simp: fold_unpublish_heap fqdn_ok_def)
  from quiet_trans [OF this quiet_user_cb] show ?thesis by (simp add: goodbye_cb_def)
qed

lemma quiet_services: "quiet P S st (st\<lparr> services := y \<rparr>)"
  by (rule quiet_frame) auto

lemma quiet_error_listeners: "quiet P S st (st\<lparr> error_listeners := y \<rparr>)"
  by (rule quiet_frame) auto

lemma quiet_response_listeners: "quiet P S st (st\<lparr> response_listeners := y \<rparr>)"
  by (rule quiet_frame) auto

lemma quiet_clearTimeout: "quiet P S st (clearTimeout t st)"
  by (cases t; rule quiet_frame) auto

lemma quiet_emit: "(\<And>s. a \<noteq> Emit s ''up'') \<Longrightarrow> quiet P S st (emit a st)"
  by (rule quiet_frame) (auto simp: emit_def)

lemma quiet_stop: "quiet P S st (stop s cb st)"
  unfolding stop_def Let_def
  by (auto intro: quiet_refl quiet_trans [OF quiet_teardown quiet_services])

lemma quiet_unpublishAll: "quiet P S st (unpublishAll cb st)"
  unfolding unpublishAll_def Let_def
  by (auto intro: quiet_trans [OF quiet_teardown quiet_services])

lemma quiet_start: "quiet P S st (start s opts st)"
proof (cases "activated (heap st s)")
  case True
  then show ?thesis by (simp add: start_def quiet_refl)
next
  case False
  define st1 where "st1 = upd s (\<lambda>v. v\<lparr> activated := True \<rparr>) st"
  define st2 where "st2 = (if falsy (originalName (heap st1 s))
              then upd s (\<lambda>v. v\<lparr> originalName := Some (name v), nameAttempt := Num 1 \<rparr>) st1 else st1)"
  define st3 where "st3 = st2\<lparr> services := services st2 @ [s] \<rparr>"
  define st4 where "st4 = st3\<lparr> error_listeners := error_listeners st3 @ [ErrListener (function_env opts)] \<rparr>"
  have e: "start s opts st = (if opts_probe opts then probe s (StartCb s opts) st4 else announce s st4)"
    using False by (simp add: start_def Let_def st1_def st2_def st3_def st4_def)
  have g1: "quiet P S st st1" unfolding st1_def by (rule quiet_upd) (simp_all add: fqdn_ok_def)
  have g2: "quiet P S st1 st2" unfolding st2_def
    by (auto intro: quiet_refl quiet_upd simp: fqdn_ok_def)
  have g3: "quiet P S st2 st3" unfolding st3_def by (rule quiet_services)
  have g4: "quiet P S st3 st4" unfolding st4_def by (rule quiet_error_listeners)
  have g5: "quiet P S st4 (start s opts st)" unfolding e by (simp add: quiet_probe quiet_announce)
  from g1 g2 g3 g4 g5 show ?thesis by (blast intro: quiet_trans)
qed

lemma quiet_rename:
  "quiet P S st
     (emit (ConsoleLog s m)
       (upd s (\<lambda>v. v\<lparr> fqdn := name v @ ''.'' @ type v \<rparr>)
         (upd s (\<lambda>v. v\<lparr> name := str_of (originalName v) @ '' ('' @ js_str (nameAttempt v) @ '')'' \<rparr>)
           (upd s (\<lambda>v. v\<lparr> nameAttempt := js_incr (nameAttempt v) \<rparr>) st))))"
  by (rule quiet_frame) (auto simp: upd_def emit_def fqdn_ok_def)

lemma quiet_call_cb: "quiet P S st (call_cb k b st)"
proof (cases k)
  case (StartCb s opts)
  show ?thesis
  proof (cases b)
    case False
    with StartCb show ?thesis by (simp add: quiet_announce)
  next
    case True
    define st1 where "st1 = upd s (\<lambda>v. v\<lparr> activated := False \<rparr>) st"
    define st2 where "st2 = st1\<lparr> services := remove1 s (services st1) \<rparr>"
    define st3 where "st3 = upd s (\<lambda>v. v\<lparr> nameAttempt := js_incr (nameAttempt v) \<rparr>) st2"
    define st4 where "st4 = upd s (\<lambda>v. v\<lparr> name := str_of (originalName v) @ '' ('' @ js_str (nameAttempt v) @ '')'' \<rparr>) st3"
    define st5 where "st5 = upd s (\<lambda>v. v\<lparr> fqdn := name v @ ''.'' @ type v \<rparr>) st4"
    define st6 where "st6 = emit (ConsoleLog s (''Name conflict, retrying with \"'' @ name (heap st5 s) @ ''\"'')) st5"
    have e: "call_cb k b st = start s RegistryRef st6"
      unfolding StartCb st6_def st5_def st4_def st3_def st2_def st1_def
      using True by (simp only: call_cb.simps Let_def service_start_def if_True)
    have g1: "quiet P S st st1" unfolding st1_def by (rule quiet_upd) (simp_all add: fqdn_ok_def)
    have g2: "quiet P S st1 st2" unfolding st2_def by (rule quiet_services)
    have g6: "quiet P S st2 st6" unfolding st6_def st5_def st4_def st3_def by (rule quiet_rename)
    have g7: "quiet P S st6 (call_cb k b st)" unfolding e by (rule quiet_start)
    from g1 g2 g6 g7 show ?thesis by (blast intro: quiet_trans)
  qed
qed

lemma quiet_probe_done: "quiet P S st (probe_done p b st)"
proof -
  define st1 where "st1 = st\<lparr> response_listeners := remove1 p (response_listeners st) \<rparr>"
  define st2 where "st2 = clearTimeout (timer (probes st1 p)) st1"
  define st3 where "st3 = emit (ProbeResult p b) st2"
  have e: "probe_done p b st = call_cb (p_cb (probes st3 p)) b st3"
    by (simp add: probe_done_def Let_def st3_def st2_def st1_def)
  have g1: "quiet P S st st1" unfolding st1_def by (rule quiet_response_listeners)
  have g2: "quiet P S st1 st2" unfolding st2_def by (rule quiet_clearTimeout)
  have g3: "quiet P S st2 st3" unfolding st3_def by (rule quiet_emit) simp
  have g4: "quiet P S st3 (probe_done p b st)" unfolding e by (rule quiet_call_cb)
  from g1 g2 g3 g4 show ?thesis by (blast intro: quiet_trans)
qed

lemma quiet_onresponse: "quiet P S st (onresponse p pkt st)"
  by (simp add: onresponse_def quiet_probe_done quiet_refl)

lemma quiet_fold_onresponse: "quiet P S st (fold (\<lambda>p. onresponse p pkt) ps st)"
proof (induction ps arbitrary: st)
  case Nil
  show ?case by (simp add: quiet_refl)
next
  case (Cons p ps)
  from quiet_trans [OF quiet_onresponse Cons.IH] show ?case by simp
qed

lemma quiet_publish: "quiet P S st (publish o' st)"
proof -
  define st1 where "st1 = st\<lparr> heap := (heap st)(next_sid st := Service o'), next_sid := Suc (next_sid st) \<rparr>"
  have e: "publish o' st = start (next_sid st) (Opts (o_probe o' \<noteq> Some False)) st1"
    by (simp add: publish_def Let_def service_start_def st1_def)
  have "quiet P S st st1" unfolding st1_def
    by (rule quiet_frame) (auto simp: fqdn_ok_def Service_def)
  from quiet_trans [OF this quiet_start] show ?thesis unfolding e .
qed

lemma quiet_run_timer: "quiet P S st (run_timer k st)"
  by (cases k) (simp_all add: run_timer_def quiet_send quiet_probe_done quiet_broadcast)

lemma quiet_run_tcb:
  assumes "\<And>p. k = QueryCb p \<Longrightarrow> p \<in> P"
      and "\<And>a. k = BroadcastCb a \<Longrightarrow> a_service (announces st a) \<in> S"
      and "\<And>inc cb. k = GoodbyeCb inc cb \<Longrightarrow> set inc \<subseteq> S"
  shows "quiet P S st (run_tcb k res st)"
  using assms by (cases k) (simp_all add: run_tcb_def quiet_query_cb quiet_broadcast_cb quiet_goodbye_cb)

lemma quiet_error_listeners_run:
  "run_error_listeners ls err st = Inr st' \<Longrightarrow> quiet P S st st'"
proof (induction ls arbitrary: st)
  case Nil
  then show ?case by (simp add: quiet_refl)
next
  case (Cons l ls)
  from Cons.prems obtain st1 where 1: "error_listener l err st = Inr st1"
    and 2: "run_error_listeners ls err st1 = Inr st'"
    by (auto split: sum.splits)
  from error_listener_Inr [OF 1] obtain s where "st1 = emit (Emit s ''error'') st" ..
  then have g1: "quiet P S st st1" by (simp add: quiet_emit)
  from Cons.IH [OF 2] g1 show ?case by (blast intro: quiet_trans)
qed

lemma map_of_None_filter: "map_of xs k = None \<Longrightarrow> filter (\<lambda>x. fst x \<noteq> k) xs = xs"
  by (induction xs) (auto split: if_splits)

lemma quiet_step:
  "quiet {p. completing e st = Some (QueryCb p)} {s. broadcast_of s e st \<or> goodbye_of s e st}
     (dequeue e st) (step e st)"
    (is "quiet ?P ?S _ _")
proof (cases e)
  case (Publish o')
  then show ?thesis by (simp add: dequeue_def quiet_publish)
next
  case (Start s b)
  then show ?thesis by (simp add: dequeue_def service_start_def quiet_start quiet_refl)
next
  case (Stop s cb)
  then show ?thesis by (simp add: dequeue_def quiet_stop quiet_refl)
next
  case (UnpublishAll cb)
  then show ?thesis by (simp add: dequeue_def quiet_unpublishAll)
next
  case Destroy
  then show ?thesis by (simp add: dequeue_def quiet_destroy)
next
  case (TimerFires t)
  show ?thesis
  proof (cases "map_of (timers st) t")
    case None
    then have "dequeue e st = st" by (simp add: TimerFires dequeue_def map_of_None_filter)
    with None TimerFires show ?thesis by (simp add: quiet_refl)
  next
    case (Some k)
    with TimerFires show ?thesis by (simp add: dequeue_def quiet_run_timer)
  qed
next
  case (Completes c res)
  show ?thesis
  proof (cases "map_of (inflight st) c")
    case None
    then have "dequeue e st = st" by (simp add: Completes dequeue_def map_of_None_filter)
    with None Completes show ?thesis by (simp add: quiet_refl)
  next
    case (Some k)
    have a: "announces (dequeue (Completes c res) st) = announces st" by (simp add: dequeue_def)
    have "quiet ?P ?S (dequeue e st) (run_tcb k res (dequeue e st))"
      by (rule quiet_run_tcb)
         (auto simp: completing_def broadcast_of_def goodbye_of_def Completes Some a)
    with Completes Some show ?thesis by (simp add: dequeue_def)
  qed
next
  case (Response pkt)
  then show ?thesis by (simp add: dequeue_def quiet_fold_onresponse)
next
  case (TransportError err)
  show ?thesis
  proof (cases "emit_error err st")
    case (Inl y)
    with TransportError show ?thesis by (simp add: dequeue_def quiet_emit)
  next
    case (Inr st1)
    then have "run_error_listeners (error_listeners st) err st = Inr st1"
      by (auto simp: emit_error_def split: if_splits)
    from quiet_error_listeners_run [OF this] TransportError Inr show ?thesis by (simp add: dequeue_def)
  qed
qed

section \<open>Responses before the first transmission\<close>















section \<open>The up notification\<close>

lemma dequeue_fields:
  "heap (dequeue e st) = heap st" "trace (dequeue e st) = trace st"
  "next_sid (dequeue e st) = next_sid st" "probes (dequeue e st) = probes st"
  "next_cid (dequeue e st) = next_cid st" "announces (dequeue e st) = announces st"
  by (cases e; simp add: dequeue_def)+

lemma trace_step: "\<exists>x. trace (step e st) = trace st @ x"
  using quiet_step [of e st] by (auto simp: quiet_def dequeue_fields)

lemma trace_run: "\<exists>x. trace (run evs st) = trace st @ x"
proof (induction evs arbitrary: st)
  case Nil
  show ?case by (simp add: run_def)
next
  case (Cons e evs)
  from trace_step [of e st] obtain x where x: "trace (step e st) = trace st @ x" ..
  from Cons.IH [of "step e st"] obtain y where "trace (run evs (step e st)) = trace (step e st) @ y" ..
  with x have "trace (run (e # evs) st) = trace st @ (x @ y)" by (simp add: run_def)
  then show ?case by blast
qed

lemma ups_since_Cons:
  "ups s (since st (run (e # evs) st))
     = ups s (since st (step e st)) + ups s (since (step e st) (run evs (step e st)))"
proof -
  from trace_step [of e st] obtain x where x: "trace (step e st) = trace st @ x" ..
  from trace_run [of evs "step e st"] obtain y where y: "trace (run evs (step e st)) = trace (step e st) @ y" ..
  have "run (e # evs) st = run evs (step e st)" by (simp add: run_def)
  then show ?thesis by (simp add: since_def x y ups_append)
qed

lemma calm_step:
  assumes "\<not> broadcast_of s e st" "\<not> goodbye_of s e st" "s < next_sid st"
  shows "published (heap (step e st) s) = published (heap st s)
       \<and> ups s (since st (step e st)) = 0 \<and> s < next_sid (step e st)"
proof -
  have q: "quiet {p. completing e st = Some (QueryCb p)} {s. broadcast_of s e st \<or> goodbye_of s e st}
             (dequeue e st) (step e st)" by (rule quiet_step)
  from q obtain x where x: "trace (step e st) = trace st @ x" "Emit s ''up'' \<notin> set x"
    using assms(1,2) unfolding quiet_def dequeue_fields by blast
  have "ups s (since st (step e st)) = 0" using x by (auto simp: since_def ups_def filter_empty_conv)
  moreover have "published (heap (step e st) s) = published (heap st s)" "s < next_sid (step e st)"
    using q assms unfolding quiet_def dequeue_fields by auto
  ultimately show ?thesis by simp
qed

lemma broadcast_step:
  assumes "broadcast_of s e st"
  shows "published (heap (step e st) s)
       \<and> (\<not> published (heap st s) \<longrightarrow> activated (heap (step e st) s))
       \<and> ups s (since st (step e st)) = (if published (heap st s) then 0 else 1)
       \<and> next_sid (step e st) = next_sid st"
proof -
  from assms obtain c res a where e: "e = Completes c res"
    and m: "map_of (inflight st) c = Some (BroadcastCb a)" and a: "a_service (announces st a) = s"
    by (cases e; cases "completing e st") (auto simp: broadcast_of_def completing_def split: tcb.splits)
  define st1 where "st1 = st\<lparr> inflight := filter (\<lambda>x. fst x \<noteq> c) (inflight st) \<rparr>"
  have s: "step e st = broadcast_cb a res st1" by (simp add: e m run_tcb_def st1_def)
  have f: "heap st1 = heap st" "announces st1 = announces st" "trace st1 = trace st"
    "next_sid st1 = next_sid st"
    by (simp_all add: st1_def)
  have n: "next_sid (broadcast_cb a res st1) = next_sid st1"
    by (simp add: broadcast_cb_def setTimeout_def upd_def emit_def Let_def)
  show ?thesis
    unfolding s using a
    by (auto simp: broadcast_cb_fields f n since_def ups_def)
qed

lemma up_once_gen:
  "s < next_sid st \<Longrightarrow> \<not> withdrawn s evs st \<Longrightarrow>
     ups s (since st (run evs st)) = (if \<not> published (heap st s) \<and> broadcast_done s evs st then 1 else 0)
     \<and> published (heap (run evs st) s) = (published (heap st s) \<or> broadcast_done s evs st)"
proof (induction evs arbitrary: st)
  case Nil
  show ?case by (simp add: run_def since_def ups_def)
next
  case (Cons e evs)
  from Cons.prems(2) have g: "\<not> goodbye_of s e st" and w: "\<not> withdrawn s evs (step e st)" by simp_all
  have u: "run (e # evs) st = run evs (step e st)" by (simp add: run_def)
  show ?case
  proof (cases "broadcast_of s e st")
    case True
    from broadcast_step [OF True] have b: "published (heap (step e st) s)"
      "ups s (since st (step e st)) = (if published (heap st s) then 0 else 1)"
      "next_sid (step e st) = next_sid st" by simp_all
    have n: "s < next_sid (step e st)" using Cons.prems(1) b(3) by simp
    from Cons.IH [OF n w] b True show ?thesis
      by (simp add: ups_since_Cons) (simp add: u)
  next
    case False
    from calm_step [OF False g Cons.prems(1)]
    have c: "published (heap (step e st) s) = published (heap st s)"
      "ups s (since st (step e st)) = 0" "s < next_sid (step e st)" by simp_all
    from Cons.IH [OF c(3) w] c False show ?thesis
      by (simp add: ups_since_Cons) (simp add: u)
  qed
qed

text \<open>
  C7: a broadcast of a service completes when the transport calls back the \<open>respond\<close> of
  one of its announce cycles, with or without an error; a goodbye of the service
  completes when the transport calls back the \<open>respond\<close> of a teardown that included it.
  From any state, over any sequence of events in which no goodbye of the service
  completes: \<open>up\<close> fires once if the service was not published and one of its broadcasts
  completes, and not at all otherwise; the service is published afterwards exactly if it
  was before or a broadcast completed. The completion of a broadcast of a service that
  is not published, whatever the transport reports, sets \<open>activated\<close> and \<open>published\<close> and
  fires \<open>up\<close> once.
\<close>

theorem up_once_until_goodbye:
  assumes "s < next_sid st" "\<not> withdrawn s evs st"
  shows "ups s (since st (run evs st)) = (if \<not> published (heap st s) \<and> broadcast_done s evs st then 1 else 0)
       \<and> published (heap (run evs st) s) = (published (heap st s) \<or> broadcast_done s evs st)
       \<and> (broadcast_of s e st \<and> \<not> published (heap st s) \<longrightarrow>
            activated (heap (step e st) s) \<and> published (heap (step e st) s)
            \<and> ups s (since st (step e st)) = 1)"
proof -
  have "broadcast_of s e st \<and> \<not> published (heap st s) \<longrightarrow>
            activated (heap (step e st) s) \<and> published (heap (step e st) s)
            \<and> ups s (since st (step e st)) = 1"
    using broadcast_step [of s e st] by auto
  with up_once_gen [OF assms] show ?thesis by blast
qed

lemmas run_defs = model_defs completing_def broadcast_of_def goodbye_of_def

text \<open>
  A service published without probing: its first broadcast fails, two more follow. \<open>up\<close>
  has fired once, at the completion of the first.
\<close>

theorem up_once_until_goodbye_witness:
  "0 < next_sid (run [Publish printer_np] (init srv_record))
   \<and> \<not> withdrawn 0 three_rounds (run [Publish printer_np] (init srv_record))
   \<and> \<not> published (heap (run [Publish printer_np] (init srv_record)) 0)
   \<and> broadcast_done 0 three_rounds (run [Publish printer_np] (init srv_record))
   \<and> broadcast_of 0 (Completes 0 (Some ''EHOSTUNREACH'')) (run [Publish printer_np] (init srv_record))
   \<and> ups 0 (since (run [Publish printer_np] (init srv_record))
        (run three_rounds (run [Publish printer_np] (init srv_record)))) = 1
   \<and> published (heap (run three_rounds (run [Publish printer_np] (init srv_record))) 0)
   \<and> activated (heap (step (Completes 0 (Some ''EHOSTUNREACH''))
        (run [Publish printer_np] (init srv_record))) 0)
   \<and> ups 0 (since (run [Publish printer_np] (init srv_record))
        (step (Completes 0 (Some ''EHOSTUNREACH'')) (run [Publish printer_np] (init srv_record)))) = 1"
proof -
  have h1: "0 < next_sid (run [Publish printer_np] (init srv_record))" by (simp add: run_defs)
  have h2: "\<not> withdrawn 0 three_rounds (run [Publish printer_np] (init srv_record))"
    by (simp add: run_defs three_rounds_def)
  have h3: "\<not> published (heap (run [Publish printer_np] (init srv_record)) 0)" by (simp add: run_defs)
  have h4: "broadcast_done 0 three_rounds (run [Publish printer_np] (init srv_record))"
    by (simp add: run_defs three_rounds_def)
  have h5: "broadcast_of 0 (Completes 0 (Some ''EHOSTUNREACH'')) (run [Publish printer_np] (init srv_record))"
    by (simp add: run_defs)
  from up_once_until_goodbye [OF h1 h2, of "Completes 0 (Some ''EHOSTUNREACH'')"] h1 h2 h3 h4 h5
  show ?thesis by simp
qed

text \<open>
  The claim ties \<open>up\<close> to the first successful broadcast, and has it fire once in a cycle.
  The first broadcast of a service fails, the transport reporting \<open>EHOSTUNREACH\<close> to the
  callback: \<open>up\<close> has fired all the same and the service is published. And a service is
  stopped before its first broadcast completes: the goodbye clears \<open>published\<close>, and the
  next backoff broadcast of the same cycle, the only cycle there is, fires \<open>up\<close> a second
  time.
\<close>

theorem up_twice_counterexample:
  "ups 0 (trace (run [Publish printer_np, Completes 0 (Some ''EHOSTUNREACH'')] (init srv_record))) = 1
   \<and> published (heap (run [Publish printer_np, Completes 0 (Some ''EHOSTUNREACH'')]
                        (init srv_record)) 0)
   \<and> ups 0 (trace (run stopped_early (init srv_record))) = 2
   \<and> next_aid (run stopped_early (init srv_record)) = 1"
  by (simp add: run_defs stopped_early_def)

section \<open>Names and attempts in every reachable state\<close>




















































section \<open>The active collection in every reachable state\<close>

lemma active_frame:
  assumes "active_ok st" "services st' = services st" "next_sid st \<le> next_sid st'"
      and "\<And>s. s \<in> set (services st) \<Longrightarrow> activated (heap st s) \<Longrightarrow> activated (heap st' s)"
  shows "active_ok st'"
  using assms by (auto simp: active_ok_def)

lemma active_broadcast: "active_ok st \<Longrightarrow> active_ok (broadcast a st)"
  by (erule active_frame) (auto simp: broadcast_def transport_call_def emit_def Let_def)

lemma active_broadcast_cb: "active_ok st \<Longrightarrow> active_ok (broadcast_cb a err st)"
  by (erule active_frame) (auto simp: broadcast_cb_def setTimeout_def upd_def emit_def Let_def)

lemma active_announce: "active_ok st \<Longrightarrow> active_ok (announce s st)"
  by (erule active_frame) (auto simp: announce_def broadcast_def transport_call_def emit_def Let_def)

lemma active_send: "active_ok st \<Longrightarrow> active_ok (send p st)"
  by (erule active_frame) (auto simp: send_def transport_call_def emit_def Let_def)

lemma active_query_cb: "active_ok st \<Longrightarrow> active_ok (query_cb p st)"
  by (erule active_frame) (auto simp: query_cb_def setTimeout_def emit_def Let_def)

lemma active_probe: "active_ok st \<Longrightarrow> active_ok (probe s cb st)"
  by (erule active_frame) (auto simp: probe_def setTimeout_def emit_def Let_def)

lemma active_start:
  assumes "active_ok st" "s < next_sid st"
  shows "active_ok (start s opts st)"
proof (cases "activated (heap st s)")
  case True
  with assms show ?thesis by (simp add: start_def)
next
  case False
  define st4 where "st4 =
    (let st1 = upd s (\<lambda>v. v\<lparr> activated := True \<rparr>) st;
         st2 = (if falsy (originalName (heap st1 s))
                then upd s (\<lambda>v. v\<lparr> originalName := Some (name v), nameAttempt := Num 1 \<rparr>) st1
                else st1);
         st3 = st2\<lparr> services := services st2 @ [s] \<rparr>
     in st3\<lparr> error_listeners :=
               error_listeners st3 @ [ErrListener (function_env opts)] \<rparr>)"
  have e: "start s opts st = (if opts_probe opts then probe s (StartCb s opts) st4 else announce s st4)"
    using False by (simp add: start_def st4_def Let_def)
  have "s \<notin> set (services st)" using assms(1) False by (auto simp: active_ok_def)
  then have "active_ok st4" using assms
    by (auto simp: st4_def active_ok_def upd_def Let_def)
  then show ?thesis unfolding e by (simp add: active_probe active_announce)
qed

lemma active_call_cb:
  assumes "active_ok st" "cb_service k < next_sid st"
  shows "active_ok (call_cb k b st)"
proof (cases k)
  case (StartCb s opts)
  with assms(2) have s: "s < next_sid st" by simp
  show ?thesis
  proof (cases b)
    case False
    with StartCb assms(1) show ?thesis by (simp add: active_announce)
  next
    case True
    define st1 where "st1 = upd s (\<lambda>v. v\<lparr> activated := False \<rparr>) st"
    define st2 where "st2 = st1\<lparr> services := remove1 s (services st1) \<rparr>"
    define st3 where "st3 = upd s (\<lambda>v. v\<lparr> nameAttempt := js_incr (nameAttempt v) \<rparr>) st2"
    define st4 where "st4 = upd s (\<lambda>v. v\<lparr> name := str_of (originalName v) @ '' ('' @ js_str (nameAttempt v) @ '')'' \<rparr>) st3"
    define st5 where "st5 = upd s (\<lambda>v. v\<lparr> fqdn := name v @ ''.'' @ type v \<rparr>) st4"
    define st6 where "st6 = emit (ConsoleLog s (''Name conflict, retrying with \"'' @ name (heap st5 s) @ ''\"'')) st5"
    have e: "call_cb k b st = start s RegistryRef st6"
      unfolding StartCb st6_def st5_def st4_def st3_def st2_def st1_def
      using True by (simp only: call_cb.simps Let_def service_start_def if_True)
    have a2: "active_ok st2" using assms(1)
      by (auto simp: st2_def st1_def active_ok_def upd_def)
    have "services st6 = services st2" "next_sid st6 = next_sid st2"
      "\<And>x. activated (heap st6 x) = activated (heap st2 x)"
      by (simp_all add: st6_def st5_def st4_def st3_def upd_def emit_def)
    with a2 have a6: "active_ok st6" by (simp add: active_ok_def)
    have "s < next_sid st6" using s by (simp add: st6_def st5_def st4_def st3_def st2_def st1_def upd_def emit_def)
    with a6 show ?thesis unfolding e by (rule active_start)
  qed
qed

lemma active_probe_done:
  assumes "active_ok st" "refs_ok st" "p < next_pid st"
  shows "active_ok (probe_done p b st)"
proof -
  define st3 where "st3 = emit (ProbeResult p b)
     (clearTimeout (timer (probes st p)) (st\<lparr> response_listeners := remove1 p (response_listeners st) \<rparr>))"
  have e: "probe_done p b st = call_cb (p_cb (probes st3 p)) b st3"
    by (simp add: probe_done_def Let_def st3_def)
  have f: "services st3 = services st" "next_sid st3 = next_sid st" "heap st3 = heap st"
    "probes st3 = probes st"
    by (cases "timer (probes st p)"; simp add: st3_def emit_def)+
  have a3: "active_ok st3" using assms(1) f by (simp add: active_ok_def)
  have "cb_service (p_cb (probes st p)) < next_sid st" using assms(2,3) by (simp add: refs_ok_def)
  then have "cb_service (p_cb (probes st3 p)) < next_sid st3" using f by simp
  with a3 show ?thesis unfolding e by (rule active_call_cb)
qed

lemma active_onresponse:
  "active_ok st \<Longrightarrow> refs_ok st \<Longrightarrow> p < next_pid st \<Longrightarrow> active_ok (onresponse p pkt st)"
  by (simp add: onresponse_def active_probe_done)

lemma active_fold_onresponse:
  "active_ok st \<Longrightarrow> refs_ok st \<Longrightarrow> \<forall>p \<in> set ps. p < next_pid st
     \<Longrightarrow> active_ok (fold (\<lambda>p. onresponse p pkt) ps st)"
proof (induction ps arbitrary: st)
  case Nil
  then show ?case by simp
next
  case (Cons p ps)
  have g: "advances st (onresponse p pkt st)" using Cons.prems by (simp add: advances_onresponse)
  have a: "active_ok (onresponse p pkt st)" using Cons.prems by (simp add: active_onresponse)
  have "\<forall>q \<in> set ps. q < next_pid (onresponse p pkt st)"
    using g Cons.prems(3) by (auto simp: advances_def)
  from Cons.IH [OF a advances_refs [OF g] this] show ?case by simp
qed

lemma teardown_flags:
  "services (teardown arg cb st) = services st"
  "next_sid (teardown arg cb st) = next_sid st"
  "activated (heap (teardown arg cb st) x) = (activated (heap st x) \<and> x \<notin> set (as_array arg))"
  by (auto simp: teardown_def split_beta goodbye_map_snd user_cb_def transport_call_def emit_def Let_def
        split: option.splits)

lemma active_stop: "active_ok st \<Longrightarrow> active_ok (stop s cb st)"
  by (auto simp: stop_def Let_def active_ok_def teardown_flags)

lemma active_unpublishAll: "active_ok st \<Longrightarrow> active_ok (unpublishAll cb st)"
  by (auto simp: unpublishAll_def Let_def active_ok_def teardown_flags)

lemma fold_upd_activated:
  assumes "\<And>v. activated (f v) = activated v"
  shows "activated (heap (fold (\<lambda>s. upd s f) ss st) x) = activated (heap st x)"
  by (induction ss arbitrary: st) (simp_all add: upd_def assms)

lemma active_fold_upd:
  assumes "active_ok st" "\<And>v. activated (f v) = activated v"
  shows "active_ok (fold (\<lambda>s. upd s f) ss st)"
proof -
  have e: "fold (\<lambda>s. upd s f) ss st = st\<lparr> heap := heap (fold (\<lambda>s. upd s f) ss st) \<rparr>"
    by (rule fold_upd_heap_only)
  have "services (fold (\<lambda>s. upd s f) ss st) = services st"
    "next_sid (fold (\<lambda>s. upd s f) ss st) = next_sid st"
    by (subst e, simp)+
  then show ?thesis using assms(1) fold_upd_activated [OF assms(2)]
    by (simp add: active_ok_def)
qed

lemma active_destroy: "active_ok st \<Longrightarrow> active_ok (destroy st)"
  unfolding destroy_def by (rule active_fold_upd) simp_all

lemma active_user_cb: "active_ok st \<Longrightarrow> active_ok (user_cb cb res st)"
  by (auto simp: user_cb_def emit_def active_ok_def split: option.splits)

lemma active_goodbye_cb: "active_ok st \<Longrightarrow> active_ok (goodbye_cb inc cb res st)"
  unfolding goodbye_cb_def by (rule active_user_cb, rule active_fold_upd) simp_all

lemma active_publish:
  assumes "active_ok st"
  shows "active_ok (publish o' st)"
proof -
  define st1 where "st1 = st\<lparr> heap := (heap st)(next_sid st := Service o'), next_sid := Suc (next_sid st) \<rparr>"
  have e: "publish o' st = start (next_sid st) (Opts (o_probe o' \<noteq> Some False)) st1"
    by (simp add: publish_def Let_def service_start_def st1_def)
  have "active_ok st1" using assms by (auto simp: active_ok_def st1_def)
  moreover have "next_sid st < next_sid st1" by (simp add: st1_def)
  ultimately show ?thesis unfolding e by (rule active_start)
qed

lemma active_error_listeners_run:
  "active_ok st \<Longrightarrow> run_error_listeners ls err st = Inr st' \<Longrightarrow> active_ok st'"
proof (induction ls arbitrary: st)
  case Nil
  then show ?case by simp
next
  case (Cons l ls)
  from Cons.prems(2) obtain st1 where 1: "error_listener l err st = Inr st1"
    and 2: "run_error_listeners ls err st1 = Inr st'"
    by (auto split: sum.splits)
  from 1 obtain s where "st1 = emit (Emit s ''error'') st"
    by (cases l) (auto split: option.splits binding.splits)
  then have "active_ok st1" using Cons.prems(1) by (simp add: active_ok_def emit_def)
  from Cons.IH [OF this 2] show ?case .
qed

lemma active_step:
  assumes "active_ok st" "refs_ok st"
  shows "active_ok (step e st)"
proof (cases e)
  case (Publish o')
  with assms(1) show ?thesis by (simp add: active_publish)
next
  case (Start s b)
  with assms(1) show ?thesis by (simp add: service_start_def active_start)
next
  case (Stop s cb)
  with assms(1) show ?thesis by (simp add: active_stop)
next
  case (UnpublishAll cb)
  with assms(1) show ?thesis by (simp add: active_unpublishAll)
next
  case Destroy
  with assms(1) show ?thesis by (simp add: active_destroy)
next
  case (TimerFires t)
  show ?thesis
  proof (cases "map_of (timers st) t")
    case None
    with TimerFires assms(1) show ?thesis by simp
  next
    case (Some k)
    then have "(t, k) \<in> set (timers st)" by (rule map_of_SomeD)
    then have ok: "cont_ok (next_pid st) k" using assms(2) by (auto simp: refs_ok_def)
    let ?st1 = "st\<lparr> timers := filter (\<lambda>e. fst e \<noteq> t) (timers st) \<rparr>"
    have a1: "active_ok ?st1" using assms(1) by (simp add: active_ok_def)
    have w1: "refs_ok ?st1" using advances_timers_filter [OF assms(2)] by (rule advances_refs)
    have "active_ok (run_timer k ?st1)"
      using a1 w1 ok by (cases k) (simp_all add: run_timer_def active_send active_probe_done active_broadcast)
    with TimerFires Some show ?thesis by simp
  qed
next
  case (Completes c res)
  show ?thesis
  proof (cases "map_of (inflight st) c")
    case None
    with Completes assms(1) show ?thesis by simp
  next
    case (Some k)
    let ?st1 = "st\<lparr> inflight := filter (\<lambda>e. fst e \<noteq> c) (inflight st) \<rparr>"
    have a1: "active_ok ?st1" using assms(1) by (simp add: active_ok_def)
    have "active_ok (run_tcb k res ?st1)"
      using a1 by (cases k) (simp_all add: run_tcb_def active_query_cb active_broadcast_cb active_goodbye_cb)
    with Completes Some show ?thesis by simp
  qed
next
  case (Response pkt)
  have "\<forall>p \<in> set (response_listeners st). p < next_pid st" using assms(2) by (simp add: refs_ok_def)
  from active_fold_onresponse [OF assms this] Response show ?thesis by simp
next
  case (TransportError err)
  show ?thesis
  proof (cases "emit_error err st")
    case (Inl x)
    with TransportError assms(1) show ?thesis by (simp add: active_ok_def emit_def)
  next
    case (Inr st1)
    then have "run_error_listeners (error_listeners st) err st = Inr st1"
      by (auto simp: emit_error_def split: if_splits)
    from active_error_listeners_run [OF assms(1) this] TransportError Inr show ?thesis by simp
  qed
qed

lemma active_run: "active_ok st \<Longrightarrow> refs_ok st \<Longrightarrow> active_ok (run evs st)"
  unfolding run_def
proof (induction evs arbitrary: st)
  case Nil
  then show ?case by simp
next
  case (Cons e evs)
  have a: "active_ok (step e st)" using Cons.prems by (rule active_step)
  have r: "refs_ok (step e st)" using advances_step [OF Cons.prems(2)] by (rule advances_refs)
  from Cons.IH [OF a r] show ?case by simp
qed

lemma reachable_collection:
  "distinct (services (run evs (init R)))
   \<and> (\<forall>s \<in> set (services (run evs (init R))). activated (heap (run evs (init R)) s))"
proof -
  have "active_ok (init R)" by (simp add: active_ok_def init_def)
  from active_run [OF this refs_init] show ?thesis by (simp add: active_ok_def)
qed

section \<open>Teardown\<close>

lemma goodbye_map_fst:
  "fst (goodbye_map ss st) =
     map (\<lambda>s. map (\<lambda>r. r\<lparr> ttl := 0 \<rparr>) (records st ((heap st s)\<lparr> activated := False \<rparr>))) ss"
proof (induction ss arbitrary: st)
  case Nil
  show ?case by simp
next
  case (Cons s ss)
  show ?case
    by (simp add: Let_def split_beta Cons.IH upd_fields)
qed

lemma teardown_nonempty:
  assumes "inc = filter (\<lambda>s. activated (heap st s)) (as_array arg)"
      and "recs = concat (map (\<lambda>s. map (\<lambda>r. r\<lparr> ttl := 0 \<rparr>)
                                  (records st ((heap st s)\<lparr> activated := False \<rparr>))) inc)"
      and "recs \<noteq> []"
  shows "teardown arg cb st =
     st\<lparr> heap := (\<lambda>s. if s \<in> set inc then (heap st s)\<lparr> activated := False \<rparr> else heap st s),
         inflight := inflight st @ [(next_cid st, GoodbyeCb inc cb)],
         next_cid := Suc (next_cid st),
         trace := trace st @ [Unregister recs, Respond recs] \<rparr>"
proof -
  have f: "fst (goodbye_map inc st) =
             map (\<lambda>s. map (\<lambda>r. r\<lparr> ttl := 0 \<rparr>) (records st ((heap st s)\<lparr> activated := False \<rparr>))) inc"
    by (rule goodbye_map_fst)
  have s: "snd (goodbye_map inc st) =
             st\<lparr> heap := (\<lambda>s. if s \<in> set inc then (heap st s)\<lparr> activated := False \<rparr> else heap st s) \<rparr>"
    by (rule goodbye_map_snd)
  show ?thesis
    using assms(3)
    unfolding teardown_def assms(1) [symmetric] Let_def split_beta f s assms(2) [symmetric]
    by (simp add: transport_call_def emit_def)
qed

lemma fold_unpublish_fields:
  "trace (fold (\<lambda>s. upd s (\<lambda>v. v\<lparr> published := False \<rparr>)) ss st) = trace st"
  "inflight (fold (\<lambda>s. upd s (\<lambda>v. v\<lparr> published := False \<rparr>)) ss st) = inflight st"
  by (induction ss arbitrary: st) (auto simp: upd_def)

lemma goodbye_cb_fields:
  "heap (goodbye_cb inc cb res st) s =
     (if s \<in> set inc then (heap st s)\<lparr> published := False \<rparr> else heap st s)"
  "trace (goodbye_cb inc cb res st) =
     trace st @ (case cb of None \<Rightarrow> [] | Some c \<Rightarrow> [UserCallback c res])"
  "inflight (goodbye_cb inc cb res st) = inflight st"
  by (auto simp: goodbye_cb_def user_cb_def emit_def fold_unpublish_heap fold_unpublish_fields
        split: option.splits)

lemma map_of_filter_other: "c \<noteq> c' \<Longrightarrow> map_of (filter (\<lambda>x. fst x \<noteq> c') xs) c = map_of xs c"
  by (induction xs) auto

lemma map_of_filter_same: "map_of (filter (\<lambda>x. fst x \<noteq> c) xs) c = None"
  by (induction xs) auto

lemma map_of_append_fresh: "\<forall>x \<in> set new. c \<noteq> fst x \<Longrightarrow> map_of (xs @ new) c = map_of xs c"
  by (induction xs) (auto simp: map_of_eq_None_iff [THEN iffD2] image_iff)

lemma pending_step:
  assumes "c < next_cid st" "\<forall>r. e \<noteq> Completes c r"
  shows "map_of (inflight (step e st)) c = map_of (inflight st) c \<and> c < next_cid (step e st)"
proof -
  have q: "quiet {p. completing e st = Some (QueryCb p)} {s. broadcast_of s e st \<or> goodbye_of s e st}
             (dequeue e st) (step e st)" by (rule quiet_step)
  have d: "map_of (inflight (dequeue e st)) c = map_of (inflight st) c"
    using assms(2) by (cases e) (auto simp: dequeue_def map_of_filter_other)
  have n: "next_cid (dequeue e st) = next_cid st" by (cases e) (simp_all add: dequeue_def)
  from q obtain new where new: "inflight (step e st) = inflight (dequeue e st) @ new"
    "\<forall>x \<in> set new. next_cid (dequeue e st) \<le> fst x" unfolding quiet_def by blast
  have "\<forall>x \<in> set new. c \<noteq> fst x" using new(2) assms(1) n by auto
  then have "map_of (inflight (step e st)) c = map_of (inflight (dequeue e st)) c"
    unfolding new(1) by (rule map_of_append_fresh)
  moreover have "c < next_cid (step e st)" using q assms(1) n by (simp add: quiet_def)
  ultimately show ?thesis using d by simp
qed

lemma pending_run:
  "c < next_cid st \<Longrightarrow> \<forall>r. Completes c r \<notin> set evs
     \<Longrightarrow> map_of (inflight (run evs st)) c = map_of (inflight st) c"
proof (induction evs arbitrary: st)
  case Nil
  show ?case by (simp add: run_def)
next
  case (Cons e evs)
  have "\<forall>r. e \<noteq> Completes c r" using Cons.prems(2) by auto
  from pending_step [OF Cons.prems(1) this]
  have 1: "map_of (inflight (step e st)) c = map_of (inflight st) c" and 2: "c < next_cid (step e st)"
    by simp_all
  have "\<forall>r. Completes c r \<notin> set evs" using Cons.prems(2) by auto
  from Cons.IH [OF 2 this] 1 show ?case by (simp add: run_def)
qed

lemma goodbye_completes:
  assumes "map_of (inflight st) c = Some (GoodbyeCb inc cb)"
  shows "(\<forall>s \<in> set inc. \<not> published (heap (step (Completes c res) st) s))
       \<and> since st (step (Completes c res) st) = (case cb of None \<Rightarrow> [] | Some k \<Rightarrow> [UserCallback k res])
       \<and> map_of (inflight (step (Completes c res) st)) c = None"
  using assms by (simp add: run_tcb_def goodbye_cb_fields since_def map_of_filter_same)

text \<open>
  C8: the teardown that \<open>unpublishAll\<close> or \<open>stop\<close> runs in a state \<open>st\<close> that a sequence of
  events reaches from the empty registry. \<open>inc\<close> are the services of the batch that are
  activated, in the order of the batch, and \<open>recs\<close> their goodbye records, concatenated;
  \<open>recs\<close> is not empty. Every record of \<open>recs\<close> has TTL 0; the step appends to the trace
  one \<open>unregister\<close> and one \<open>respond\<close>, both of the whole of \<open>recs\<close>, and nothing else;
  every included service is deactivated and is no longer in the active collection.
  Whatever events \<open>evs2\<close> follow before the transport completes that broadcast, when it
  completes it with result \<open>res\<close>, \<open>published\<close> is cleared on every included service, the
  only thing appended to the trace is one call of the caller's callback, with \<open>res\<close>, if
  a callback was given, and the broadcast is no longer pending.
\<close>

theorem teardown_goodbye:
  assumes "st = run evs (init R)"
      and "(e = UnpublishAll cb \<and> batch = services st)
           \<or> (e = Stop this cb \<and> this < next_sid st \<and> batch = [this])"
      and "inc = filter (\<lambda>s. activated (heap st s)) batch"
      and "recs = concat (map (\<lambda>s. map (\<lambda>r. r\<lparr> ttl := 0 \<rparr>)
                                  (records st ((heap st s)\<lparr> activated := False \<rparr>))) inc)"
      and "recs \<noteq> []"
      and "st2 = run evs2 (step e st)"
      and "\<forall>r. Completes (next_cid st) r \<notin> set evs2"
  shows "(\<forall>r \<in> set recs. ttl r = 0)
       \<and> since st (step e st) = [Unregister recs, Respond recs]
       \<and> (\<forall>s \<in> set inc. \<not> activated (heap (step e st) s) \<and> s \<notin> set (services (step e st)))
       \<and> (\<forall>s \<in> set inc. \<not> published (heap (step (Completes (next_cid st) res) st2) s))
       \<and> since st2 (step (Completes (next_cid st) res) st2)
           = (case cb of None \<Rightarrow> [] | Some k \<Rightarrow> [UserCallback k res])
       \<and> map_of (inflight (step (Completes (next_cid st) res) st2)) (next_cid st) = None"
proof -
  define arg where "arg = (if e = UnpublishAll cb then Many (services st) else One this)"
  have b: "as_array arg = batch" using assms(2) by (auto simp: arg_def)
  have r: "refs_ok st" unfolding assms(1) using refs_init by (rule refs_run)
  have d: "distinct (services st)" unfolding assms(1) using reachable_collection by blast
  note td = teardown_nonempty [OF assms(3) [folded b] assms(4,5), of cb]
  have ne: "inc \<noteq> []" using assms(4,5) by auto
  have sv: "step e st = (teardown arg cb st)\<lparr> services := (if e = UnpublishAll cb then [] else remove1 this (services st)) \<rparr>"
  proof (cases "e = UnpublishAll cb")
    case True
    then show ?thesis using assms(2) by (simp add: arg_def unpublishAll_def)
  next
    case False
    with assms(2) have s: "e = Stop this cb" "this < next_sid st" "batch = [this]" by auto
    with ne assms(3) have act: "activated (heap st this)" by (auto split: if_splits)
    from False have ao: "arg = One this" by (simp add: arg_def)
    have "services (teardown arg cb st) = services st" by (simp add: td)
    then show ?thesis using s(1,2) act False unfolding ao by (simp add: stop_def Let_def)
  qed
  have 1: "\<forall>r \<in> set recs. ttl r = 0" unfolding assms(4) by auto
  have 2: "since st (step e st) = [Unregister recs, Respond recs]"
    unfolding sv by (simp add: td since_def)
  have 3: "\<forall>s \<in> set inc. \<not> activated (heap (step e st) s) \<and> s \<notin> set (services (step e st))"
  proof (cases "e = UnpublishAll cb")
    case True
    then show ?thesis unfolding sv by (simp add: td)
  next
    case False
    with assms(2) have "batch = [this]" by auto
    with assms(3) have "set inc \<subseteq> {this}" by auto
    with d False show ?thesis unfolding sv by (auto simp: td)
  qed
  have fr: "\<forall>x \<in> set (inflight st). fst x < next_cid st" using r by (simp add: refs_ok_def)
  have "map_of (inflight st) (next_cid st) = None"
    using fr by (fastforce simp: map_of_eq_None_iff)
  then have p1: "map_of (inflight (step e st)) (next_cid st) = Some (GoodbyeCb inc cb)"
    unfolding sv by (simp add: td map_add_def)
  have "next_cid st < next_cid (step e st)" unfolding sv by (simp add: td)
  from pending_run [OF this assms(7)] p1
  have "map_of (inflight st2) (next_cid st) = Some (GoodbyeCb inc cb)" unfolding assms(6) by simp
  from goodbye_completes [OF this, of res] 1 2 3 show ?thesis by blast
qed

text \<open>
  \<open>unpublishAll\<close> with two services up: one goodbye broadcast carries the records of
  both, the collection is empty; a backoff timer of the first service then fires, and
  when the goodbye completes both flags are cleared and the callback is called once.
\<close>

theorem teardown_goodbye_witness:
  "services two_up = [0, 1]
   \<and> filter (\<lambda>s. activated (heap two_up s)) [0, 1] = [0, 1]
   \<and> next_cid two_up = 2
   \<and> since two_up (step (UnpublishAll (Some 5)) two_up) = [Unregister byes, Respond byes]
   \<and> services (step (UnpublishAll (Some 5)) two_up) = []
   \<and> \<not> activated (heap (step (UnpublishAll (Some 5)) two_up) 0)
   \<and> \<not> activated (heap (step (UnpublishAll (Some 5)) two_up) 1)
   \<and> \<not> published (heap (step (Completes 2 None) (run [TimerFires 0] (step (UnpublishAll (Some 5)) two_up))) 0)
   \<and> \<not> published (heap (step (Completes 2 None) (run [TimerFires 0] (step (UnpublishAll (Some 5)) two_up))) 1)
   \<and> since (run [TimerFires 0] (step (UnpublishAll (Some 5)) two_up))
        (step (Completes 2 None) (run [TimerFires 0] (step (UnpublishAll (Some 5)) two_up)))
       = [UserCallback 5 None]"
proof -
  have sv: "services two_up = [0, 1]" by (simp add: two_up_def model_defs)
  have h2: "UnpublishAll (Some 5) = UnpublishAll (Some 5) \<and> [0, 1] = services two_up
            \<or> UnpublishAll (Some 5) = Stop 0 (Some 5) \<and> 0 < next_sid two_up \<and> [0, 1] = [0]"
    using sv by simp
  have h3: "[0, 1] = filter (\<lambda>s. activated (heap two_up s)) [0, 1]"
    by (simp add: two_up_def model_defs)
  have h4: "byes = concat (map (\<lambda>s. map (\<lambda>r. r\<lparr> ttl := 0 \<rparr>)
                       (records two_up ((heap two_up s)\<lparr> activated := False \<rparr>))) [0, 1])"
    by (simp add: two_up_def byes_def model_defs)
  have h5: "byes \<noteq> []" by (simp add: byes_def)
  have n: "next_cid two_up = 2" by (simp add: two_up_def model_defs)
  have h7: "\<forall>r. Completes (next_cid two_up) r \<notin> set [TimerFires 0]" by simp
  note t = teardown_goodbye [OF two_up_def h2 h3 h4 h5 refl h7, of None]
  have m: "(0::nat) \<in> set [0, 1]" "(1::nat) \<in> set [0, 1]" by simp_all
  have a: "since two_up (step (UnpublishAll (Some 5)) two_up) = [Unregister byes, Respond byes]"
    using t by blast
  have b: "services (step (UnpublishAll (Some 5)) two_up) = []" by (simp add: unpublishAll_def)
  have c: "\<not> activated (heap (step (UnpublishAll (Some 5)) two_up) 0)
         \<and> \<not> activated (heap (step (UnpublishAll (Some 5)) two_up) 1)"
    using t m by blast
  have d: "\<not> published (heap (step (Completes 2 None) (run [TimerFires 0] (step (UnpublishAll (Some 5)) two_up))) 0)
         \<and> \<not> published (heap (step (Completes 2 None) (run [TimerFires 0] (step (UnpublishAll (Some 5)) two_up))) 1)"
    using t m unfolding n by blast
  have e: "since (run [TimerFires 0] (step (UnpublishAll (Some 5)) two_up))
        (step (Completes 2 None) (run [TimerFires 0] (step (UnpublishAll (Some 5)) two_up)))
       = (case Some (5::nat) of None \<Rightarrow> [] | Some k \<Rightarrow> [UserCallback k None])"
    using t unfolding n by blast
  from sv h3 n a b c d e show ?thesis by simp
qed

text \<open>
  A record builder that gives a service no records: the service is announced and up;
  \<open>unpublishAll\<close> deactivates it and calls the callback at once, with no result; no
  goodbye is sent, nothing is pending, and the service stays published.
\<close>

theorem teardown_without_records_counterexample:
  "published (heap (run [Publish printer_np, Completes 0 None] (init no_records)) 0)
   \<and> services (run [Publish printer_np, Completes 0 None] (init no_records)) = [0]
   \<and> since (run [Publish printer_np, Completes 0 None] (init no_records))
        (run [Publish printer_np, Completes 0 None, UnpublishAll (Some 5)] (init no_records))
       = [UserCallback 5 None]
   \<and> inflight (run [Publish printer_np, Completes 0 None, UnpublishAll (Some 5)] (init no_records)) = []
   \<and> published (heap (run [Publish printer_np, Completes 0 None, UnpublishAll (Some 5)]
                         (init no_records)) 0)"
  by (simp add: model_defs no_records_def)

section \<open>Where the code departs from its description\<close>

lemma conflict_branch_never_probes:
  "response_listeners (call_cb (StartCb s opts) True st) = response_listeners st
   \<and> timers (call_cb (StartCb s opts) True st) = timers st"
  by (simp add: service_start_def start_def announce_def broadcast_def transport_call_def
        upd_def emit_def Let_def)

text \<open>
  C1: the conflict branch deactivates the service, removes it from the collection,
  increments \<open>nameAttempt\<close> and renames the service, as claimed. It then calls
  \<open>service.start(registry, opts)\<close>; \<open>service.start\<close> is already bound to the registry, so
  \<open>start\<close> receives the Registry object as its \<open>opts\<close>, finds no \<open>probe\<close> property on it
  and announces at once. After the response that claims \<open>Printer.http\<close>: the service is
  \<open>Printer (2)\<close>, active and back in the collection; no probe is registered, no timer is
  pending and no query for the new name was sent; the records of \<open>Printer (2).http\<close> are
  registered and their broadcast is in flight.
\<close>

theorem conflict_restart_skips_probe:
  "name (heap (run scenario_b (init srv_record)) 0) = ''Printer (2)''
   \<and> fqdn (heap (run scenario_b (init srv_record)) 0) = ''Printer (2).http''
   \<and> nameAttempt (heap (run scenario_b (init srv_record)) 0) = Num 2
   \<and> activated (heap (run scenario_b (init srv_record)) 0)
   \<and> services (run scenario_b (init srv_record)) = [0]
   \<and> response_listeners (run scenario_b (init srv_record)) = []
   \<and> timers (run scenario_b (init srv_record)) = []
   \<and> inflight (run scenario_b (init srv_record)) = [(1, BroadcastCb 0)]
   \<and> trace (run scenario_b (init srv_record)) =
       [SetTimeout (Send 0) Jitter, Query ''Printer.http'' ''ANY'', SetTimeout (Send 0) (Ms 250),
        ProbeResult 0 True, ConsoleLog 0 ''Name conflict, retrying with \"Printer (2)\"'',
        Register [\<lparr> rr_name = ''Printer (2).http'', rr_type = ''SRV'', ttl = 120 \<rparr>],
        Respond [\<lparr> rr_name = ''Printer (2).http'', rr_type = ''SRV'', ttl = 120 \<rparr>]]"
  by code_simp

lemma destroyed_send_noop:
  "destroyed (heap st (p_service (probes st p))) \<Longrightarrow> send p st = st"
  by (simp add: send_def)

lemma destroyed_broadcast_noop:
  "destroyed (heap st (a_service (announces st a))) \<Longrightarrow> broadcast a st = st"
  by (simp add: broadcast_def)

text \<open>
  C3: \<open>send\<close> and \<open>broadcast\<close> return when the service is destroyed, \<open>done\<close> does not look
  at the flag. The registry is destroyed while the wait after the third transmission is
  pending; when that timer fires, \<open>done\<close> invokes the callback, the callback calls
  \<open>announce\<close>, and \<open>announce\<close> registers the records of the destroyed service before
  \<open>broadcast\<close> checks the flag. No query and no broadcast follow.
\<close>

theorem destroyed_service_registered:
  "destroyed (heap (run (probed_thrice @ [Destroy]) (init srv_record)) 0)
   \<and> timers (run (probed_thrice @ [Destroy]) (init srv_record)) = [(3, Done 0)]
   \<and> since (run (probed_thrice @ [Destroy]) (init srv_record))
            (run (probed_thrice @ [Destroy, TimerFires 3]) (init srv_record))
       = [ProbeResult 0 False,
          Register [\<lparr> rr_name = ''Printer.http'', rr_type = ''SRV'', ttl = 120 \<rparr>]]"
  by code_simp

lemma service_binding:
  "map_of (function_env opts) ''service'' = None
   \<and> map_of (probe_block_env s opts) ''service'' = Some (ServiceObj s)"
  by (simp add: function_env_def module_env_def probe_block_env_def)

text \<open>
  C4: the listener that \<open>start\<close> registers for the transport's error event reads the
  identifier \<open>service\<close>, which is declared in the block of \<open>if (opts.probe)\<close> and is not in
  scope where the listener is created. On both start paths the registered listener
  carries the scope of the function body, which has no binding for it; a transport error
  makes the listener throw a ReferenceError, and no error notification reaches the
  service.
\<close>

theorem transport_error_not_forwarded:
  "error_listeners (run [Publish printer] (init srv_record)) = [ErrListener (function_env (Opts True))]
   \<and> error_listeners (run [Publish printer_np] (init srv_record))
       = [ErrListener (function_env (Opts False))]
   \<and> map_of (function_env (Opts True)) ''service'' = None
   \<and> map_of (function_env (Opts False)) ''service'' = None
   \<and> emit_error ''EADDRINUSE'' (run [Publish printer] (init srv_record))
       = Inl (ReferenceError ''service'')
   \<and> emit_error ''EADDRINUSE'' (run [Publish printer_np] (init srv_record))
       = Inl (ReferenceError ''service'')
   \<and> since (run [Publish printer] (init srv_record))
        (step (TransportError ''EADDRINUSE'') (run [Publish printer] (init srv_record)))
       = [Uncaught (ReferenceError ''service'')]
   \<and> since (run [Publish printer_np] (init srv_record))
        (step (TransportError ''EADDRINUSE'') (run [Publish printer_np] (init srv_record)))
       = [Uncaught (ReferenceError ''service'')]"
  by (simp add: model_defs function_env_def module_env_def)

lemma probe_window_not_exists:
  "probe_results 0 (trace (run (probed_thrice @ [TimerFires 3]) (init srv_record))) = [False]"
  by code_simp

text \<open>
  C5: \<open>done\<close> removes the listener and clears the timer it knows of; a query that is in
  flight is beyond its reach. The response that claims the name arrives while the third
  query is in flight: the callback runs with \<open>true\<close>. The query then completes and starts
  the last wait; when it runs out, \<open>done\<close> runs again and invokes the callback a second
  time, with \<open>false\<close>, which announces the service once more.
\<close>

theorem probe_callback_invoked_twice:
  "probe_results 0 (trace (run race (init srv_record))) = [True, False]
   \<and> trace (run race (init srv_record)) =
       [SetTimeout (Send 0) Jitter, Query ''Printer.http'' ''ANY'', SetTimeout (Send 0) (Ms 250),
        Query ''Printer.http'' ''ANY'', SetTimeout (Send 0) (Ms 250),
        Query ''Printer.http'' ''ANY'',
        ProbeResult 0 True, ConsoleLog 0 ''Name conflict, retrying with \"Printer (2)\"'',
        Register [\<lparr> rr_name = ''Printer (2).http'', rr_type = ''SRV'', ttl = 120 \<rparr>],
        Respond [\<lparr> rr_name = ''Printer (2).http'', rr_type = ''SRV'', ttl = 120 \<rparr>],
        SetTimeout (Done 0) (Ms 250),
        ProbeResult 0 False,
        Register [\<lparr> rr_name = ''Printer (2).http'', rr_type = ''SRV'', ttl = 120 \<rparr>],
        Respond [\<lparr> rr_name = ''Printer (2).http'', rr_type = ''SRV'', ttl = 120 \<rparr>]]"
  by code_simp

end
